theory Spec2Isabelle
  imports Complex_Main
begin

section \<open>Chat messages and the agent request gateway (hooks/useAgentAPI.ts)\<close>

text \<open>
  A JavaScript string is modelled as a \<^typ>\<open>string\<close>; a character stands for one code
  unit below 256. \<open>String.prototype.trim\<close> strips white space and line terminators
  from both ends; in this range these are the code units 9 to 13, 32 and 160.
\<close>

definition is_ws :: "char \<Rightarrow> bool" where
  "is_ws c = (of_char c \<in> {9, 10, 11, 12, 13, 32, 160 :: nat})"

definition trim :: "string \<Rightarrow> string" where
  "trim s = rev (dropWhile is_ws (rev (dropWhile is_ws s)))"

text \<open>types/Message.ts and utils/const.ts (\<open>Role\<close>).\<close>

datatype Role = ASSISTANT | USER

record Message =
  role :: Role
  content :: string
  ident :: string
  animate :: bool

text \<open>A thrown JavaScript value: an \<open>Error\<close> with its message.\<close>

datatype exn = Error string

text \<open>How \<open>axios.post\<close> settles: with \<open>response.data.response\<close>, or by rejecting.\<close>

datatype reply = Resolved string | Rejected exn

text \<open>
  What the hook calls outside itself, in order: the caller's callbacks and the
  network request (with the prompt of its body).
\<close>

datatype call = OnStart | OnSuccess string | OnError exn | Post string

text \<open>
  The state the hook works on: the caller's message log (behind \<open>setMessages\<close>), the
  hook's own \<open>loading\<close> flag, the calls made so far, and how many identifiers
  \<open>uuid()\<close> has handed out.
\<close>

record gateway =
  messages :: "Message list"
  loading :: bool
  calls :: "call list"
  uuids :: nat

text \<open>
  A caller-supplied callback runs in the caller's scope: it may update the message log
  and it may throw. The \<open>callbacks\<close> object and each of its fields are optional.
\<close>

type_synonym effect = "Message list \<Rightarrow> exn option \<times> Message list"

record callbacks =
  onStart :: "effect option"
  onSuccess :: "(string \<Rightarrow> effect) option"
  onError :: "(exn \<Rightarrow> effect) option"

text \<open>
  What the hook does not decide: the identifiers \<open>uuid()\<close> returns, how the request
  settles, and what other code does to the message log while the request is awaited.
\<close>

record env =
  uuid_src :: "nat \<Rightarrow> string"
  response :: reply
  inflight :: "Message list \<Rightarrow> Message list"

definition uuid :: "env \<Rightarrow> gateway \<Rightarrow> string \<times> gateway" where
  "uuid e s = (uuid_src e (uuids s), s\<lparr>uuids := Suc (uuids s)\<rparr>)"

definition setMessages :: "(Message list \<Rightarrow> Message list) \<Rightarrow> gateway \<Rightarrow> gateway" where
  "setMessages f s = s\<lparr>messages := f (messages s)\<rparr>"

definition setLoading :: "bool \<Rightarrow> gateway \<Rightarrow> gateway" where
  "setLoading b s = s\<lparr>loading := b\<rparr>"

definition record_call :: "call \<Rightarrow> gateway \<Rightarrow> gateway" where
  "record_call c s = s\<lparr>calls := calls s @ [c]\<rparr>"

text \<open>
  \<open>if (cb) cb(...)\<close>: an absent callback is skipped; a present one is recorded, runs on
  the log, and its exception (if any) is returned.
\<close>

definition invoke :: "call \<Rightarrow> effect option \<Rightarrow> gateway \<Rightarrow> exn option \<times> gateway" where
  "invoke c cb s =
     (case cb of
        None \<Rightarrow> (None, s)
      | Some f \<Rightarrow>
          (let s1 = record_call c s; (x, ms) = f (messages s1)
           in (x, s1\<lparr>messages := ms\<rparr>)))"

text \<open>\<open>callbacks?.onStart\<close> and its siblings.\<close>

definition cb_onStart :: "callbacks option \<Rightarrow> effect option" where
  "cb_onStart cbs = (case cbs of None \<Rightarrow> None | Some c \<Rightarrow> onStart c)"

definition cb_onSuccess :: "callbacks option \<Rightarrow> string \<Rightarrow> effect option" where
  "cb_onSuccess cbs r = (case cbs of None \<Rightarrow> None | Some c \<Rightarrow> map_option (\<lambda>f. f r) (onSuccess c))"

definition cb_onError :: "callbacks option \<Rightarrow> exn \<Rightarrow> effect option" where
  "cb_onError cbs x = (case cbs of None \<Rightarrow> None | Some c \<Rightarrow> map_option (\<lambda>f. f x) (onError c))"

text \<open>
  The updater of lines 102-111 and 117-126: copy the list and assign at index
  \<open>length - 1\<close>. On an empty list the index is \<open>-1\<close>, which is not an array index:
  the assignment adds a property and the elements and the length stay as they are.
\<close>

definition rewrite_last :: "Message \<Rightarrow> Message list \<Rightarrow> Message list" where
  "rewrite_last m prevMessages =
     (let updatedMessages = prevMessages
      in if length updatedMessages = 0 then updatedMessages
         else updatedMessages[length updatedMessages - 1 := m])"

definition error_text :: string where
  "error_text = ''Sorry, I encountered an error.''"

definition placeholder_text :: string where
  "placeholder_text = ''...''"

text \<open>The \<open>catch\<close> block (lines 116-130).\<close>

definition catch_block :: "callbacks option \<Rightarrow> env \<Rightarrow> exn \<Rightarrow> gateway \<Rightarrow> (exn + unit) \<times> gateway" where
  "catch_block cbs e err s =
     (let (i, s1) = uuid e s;
          s2 = setMessages (rewrite_last
                 \<lparr>role = ASSISTANT, content = error_text, ident = i, animate = False\<rparr>) s1
      in case invoke (OnError err) (cb_onError cbs err) s2 of
           (Some x, s3) \<Rightarrow> (Inl x, s3)
         | (None, s3) \<Rightarrow> (Inr (), s3))"

text \<open>The \<open>try\<close> block with its \<open>catch\<close> (lines 94-130).\<close>

definition try_block :: "string \<Rightarrow> callbacks option \<Rightarrow> env \<Rightarrow> gateway \<Rightarrow> (exn + unit) \<times> gateway" where
  "try_block prompt cbs e s =
     (let s1 = record_call (Post prompt) s;
          s2 = setMessages (inflight e) s1
      in case response e of
           Rejected err \<Rightarrow> catch_block cbs e err s2
         | Resolved r \<Rightarrow>
             (let (i, s3) = uuid e s2;
                  s4 = setMessages (rewrite_last
                         \<lparr>role = ASSISTANT, content = r, ident = i, animate = True\<rparr>) s3
              in case invoke (OnSuccess r) (cb_onSuccess cbs r) s4 of
                   (Some x, s5) \<Rightarrow> catch_block cbs e x s5
                 | (None, s5) \<Rightarrow> (Inr (), s5)))"

text \<open>
  \<open>sendMessageWithCallback\<close> (lines 58-134). The result is \<open>Inr ()\<close> when the promise
  is fulfilled and \<open>Inl x\<close> when it is rejected with \<open>x\<close>. \<open>onStart\<close> is called
  before the \<open>try\<close> statement is entered, so an exception it throws leaves the function
  at once; the \<open>finally\<close> clause runs for every way out of \<open>try\<close> and \<open>catch\<close>.
\<close>

definition sendMessageWithCallback ::
  "string \<Rightarrow> callbacks option \<Rightarrow> env \<Rightarrow> gateway \<Rightarrow> (exn + unit) \<times> gateway" where
  "sendMessageWithCallback prompt cbs e s =
     (if trim prompt = [] then (Inr (), s)
      else
        (let (i1, s1) = uuid e s;
             userMessage = \<lparr>role = USER, content = prompt, ident = i1, animate = False\<rparr>;
             (i2, s2) = uuid e s1;
             loadingMessage =
               \<lparr>role = ASSISTANT, content = placeholder_text, ident = i2, animate = True\<rparr>;
             s3 = setMessages (\<lambda>prevMessages. prevMessages @ [userMessage, loadingMessage]) s2;
             s4 = setLoading True s3
         in case invoke OnStart (cb_onStart cbs) s4 of
              (Some x, s5) \<Rightarrow> (Inl x, s5)
            | (None, s5) \<Rightarrow>
                (let (res, s6) = try_block prompt cbs e s5
                 in (res, setLoading False s6))))"

text \<open>
  \<open>sendMessage\<close> (lines 37-56): the promise is rejected with the error thrown, or
  fulfilled with the response text.
\<close>

definition sendMessage :: "string \<Rightarrow> env \<Rightarrow> gateway \<Rightarrow> (exn + string) \<times> gateway" where
  "sendMessage prompt e s =
     (if trim prompt = [] then (Inl (Error ''Prompt cannot be empty''), s)
      else
        (let s1 = setLoading True s;
             s2 = record_call (Post prompt) s1;
             res = (case response e of Resolved r \<Rightarrow> Inr r | Rejected err \<Rightarrow> Inl err)
         in (res, setLoading False s2)))"

subsection \<open>Conditions on the caller and states along one call\<close>

text \<open>
  A callback that leaves the message log as it found it; callbacks that all do so; an
  \<open>onStart\<close> that returns normally; callbacks that never throw.
\<close>

definition silent :: "effect \<Rightarrow> bool" where
  "silent f = (\<forall>ms. snd (f ms) = ms)"

definition keeps_log :: "callbacks option \<Rightarrow> bool" where
  "keeps_log cbs =
     ((\<forall>f. cb_onStart cbs = Some f \<longrightarrow> silent f) \<and>
      (\<forall>r f. cb_onSuccess cbs r = Some f \<longrightarrow> silent f) \<and>
      (\<forall>x f. cb_onError cbs x = Some f \<longrightarrow> silent f))"

definition onStart_returns :: "callbacks option \<Rightarrow> bool" where
  "onStart_returns cbs = (\<forall>f ms. cb_onStart cbs = Some f \<longrightarrow> fst (f ms) = None)"

definition never_throws :: "callbacks option \<Rightarrow> bool" where
  "never_throws cbs =
     ((\<forall>f ms. cb_onStart cbs = Some f \<longrightarrow> fst (f ms) = None) \<and>
      (\<forall>r f ms. cb_onSuccess cbs r = Some f \<longrightarrow> fst (f ms) = None) \<and>
      (\<forall>x f ms. cb_onError cbs x = Some f \<longrightarrow> fst (f ms) = None))"

text \<open>The two records the updaters write over the last entry.\<close>

definition success_message :: "env \<Rightarrow> nat \<Rightarrow> string \<Rightarrow> Message" where
  "success_message e n r = \<lparr>role = ASSISTANT, content = r, ident = uuid_src e n, animate = True\<rparr>"

definition error_message :: "env \<Rightarrow> nat \<Rightarrow> Message" where
  "error_message e n = \<lparr>role = ASSISTANT, content = error_text, ident = uuid_src e n, animate = False\<rparr>"

text \<open>
  The state once the request has been issued and awaited, once the response has been
  written over the last entry, and once the pair of messages has been appended and
  \<open>loading\<close> set.
\<close>

definition requested :: "string \<Rightarrow> env \<Rightarrow> gateway \<Rightarrow> gateway" where
  "requested prompt e s = setMessages (inflight e) (record_call (Post prompt) s)"

definition answered :: "string \<Rightarrow> env \<Rightarrow> gateway \<Rightarrow> gateway" where
  "answered r e s =
     setMessages (rewrite_last (success_message e (uuids s) r)) (s\<lparr>uuids := Suc (uuids s)\<rparr>)"

definition started :: "string \<Rightarrow> env \<Rightarrow> gateway \<Rightarrow> gateway" where
  "started prompt e s =
     setLoading True
       (setMessages (\<lambda>prevMessages. prevMessages @
            [\<lparr>role = USER, content = prompt, ident = uuid_src e (uuids s), animate = False\<rparr>,
             \<lparr>role = ASSISTANT, content = placeholder_text, ident = uuid_src e (Suc (uuids s)),
               animate = True\<rparr>])
          (s\<lparr>uuids := Suc (Suc (uuids s))\<rparr>))"

text \<open>Concrete callers, environments and a fresh hook state.\<close>

definition quiet_callbacks :: callbacks where
  "quiet_callbacks =
     \<lparr>onStart = Some (\<lambda>ms. (None, ms)),
      onSuccess = Some (\<lambda>r ms. (None, ms)),
      onError = Some (\<lambda>x ms. (None, ms))\<rparr>"

definition throwing_onStart :: callbacks where
  "throwing_onStart =
     \<lparr>onStart = Some (\<lambda>ms. (Some (Error ''boom''), ms)), onSuccess = None, onError = None\<rparr>"

definition demo_env :: "reply \<Rightarrow> env" where
  "demo_env r = \<lparr>uuid_src = (\<lambda>n. replicate (Suc n) CHR ''u''), response = r, inflight = (\<lambda>ms. ms)\<rparr>"

definition clearing_env :: "reply \<Rightarrow> env" where
  "clearing_env r = \<lparr>uuid_src = (\<lambda>n. replicate (Suc n) CHR ''u''), response = r, inflight = (\<lambda>ms. [])\<rparr>"

definition idle :: gateway where
  "idle = \<lparr>messages = [], loading = False, calls = [], uuids = 0\<rparr>"

section \<open>Measuring the chat area (useChatAreaMeasurement)\<close>




























section \<open>The graph and its animation (utils/const.ts, components/MainArea/MainArea.tsx)\<close>

text \<open>
  Of a node or an edge of the graph the animation reads the \<open>id\<close> and writes
  \<open>data.active\<close>, which is absent until it is first written.
\<close>

record element =
  element_id :: string
  active :: "bool option"

record AnimationStep =
  ids :: "string list"

record GraphConfig =
  config_nodes :: "element list"
  config_edges :: "element list"
  animationSequence :: "AnimationStep list"

text \<open>\<open>SLIM_A2A_CONFIG\<close>, exported as \<open>graphConfig\<close>.\<close>

definition graphConfig :: GraphConfig where
  "graphConfig =
     \<lparr>config_nodes = [\<lparr>element_id = ''1'', active = None\<rparr>, \<lparr>element_id = ''2'', active = None\<rparr>],
      config_edges = [\<lparr>element_id = ''1-2'', active = None\<rparr>],
      animationSequence = [\<lparr>ids = [''1'']\<rparr>, \<lparr>ids = [''1-2'']\<rparr>, \<lparr>ids = [''2'']\<rparr>]\<rparr>"

definition DELAY_DURATION :: nat where
  "DELAY_DURATION = 500"

definition HIGHLIGHT_ON :: bool where
  "HIGHLIGHT_ON = True"

definition HIGHLIGHT_OFF :: bool where
  "HIGHLIGHT_OFF = False"

text \<open>
  One run of \<open>waitForAnimationAndRun\<close> is suspended at one of its \<open>await\<close>s: in the
  polling loop; in \<open>animate(step.ids, ON)\<close> of a step, with the steps still to come;
  in \<open>animate(step.ids, OFF)\<close>, with the steps still to come; or it has returned.
  It keeps the \<open>aiReplied\<close> of the render whose effect started it.
\<close>

datatype point = Polling | Highlighted AnimationStep "AnimationStep list"
  | Dimmed "AnimationStep list" | Returned

record run_state =
  seen_aiReplied :: bool
  point :: point

text \<open>
  What a run does, in order, each with the number of the run: taking and releasing the
  lock, one \<open>updateStyle(id, active)\<close>, awaiting \<open>delay(ms)\<close>, and the two setters
  of the flags.
\<close>

datatype event = Acquire nat | Release nat | Toggle nat string bool | Delay nat nat
  | ResetReplied nat | ResetClicked nat

text \<open>
  The component: \<open>animationLock.current\<close>, the \<open>nodes\<close> and \<open>edges\<close> states, the
  two flags it receives as props, the runs started so far, and what they have done.
\<close>

record main_area =
  animationLock :: bool
  nodes :: "element list"
  edges :: "element list"
  buttonClicked :: bool
  aiReplied :: bool
  runs :: "run_state list"
  trace :: "event list"

definition emit :: "event \<Rightarrow> main_area \<Rightarrow> main_area" where
  "emit ev s = s\<lparr>trace := trace s @ [ev]\<rparr>"

definition suspend :: "nat \<Rightarrow> point \<Rightarrow> main_area \<Rightarrow> main_area" where
  "suspend r p s = s\<lparr>runs := (runs s)[r := (runs s ! r)\<lparr>point := p\<rparr>]\<rparr>"

definition set_active :: "string \<Rightarrow> bool \<Rightarrow> element \<Rightarrow> element" where
  "set_active i a obj = (if element_id obj = i then obj\<lparr>active := Some a\<rparr> else obj)"

definition updateStyle :: "nat \<Rightarrow> string \<Rightarrow> bool \<Rightarrow> main_area \<Rightarrow> main_area" where
  "updateStyle r i a s =
     emit (Toggle r i a)
       (s\<lparr>nodes := map (set_active i a) (nodes s), edges := map (set_active i a) (edges s)\<rparr>)"

text \<open>\<open>animate(ids, active)\<close> up to its \<open>await delay(DELAY_DURATION)\<close>.\<close>

definition animate_ids :: "nat \<Rightarrow> string list \<Rightarrow> bool \<Rightarrow> main_area \<Rightarrow> main_area" where
  "animate_ids r is a s = emit (Delay r DELAY_DURATION) (fold (\<lambda>i. updateStyle r i a) is s)"

text \<open>The end of \<open>animateGraph\<close>: lines 171 and 172.\<close>

definition finish :: "nat \<Rightarrow> main_area \<Rightarrow> main_area" where
  "finish r s =
     suspend r Returned
       (emit (Release r) ((emit (ResetClicked r) (s\<lparr>buttonClicked := False\<rparr>))\<lparr>animationLock := False\<rparr>))"

text \<open>The \<open>for\<close> loop from the steps still to come, up to its next \<open>await\<close>.\<close>

fun sweep :: "nat \<Rightarrow> AnimationStep list \<Rightarrow> main_area \<Rightarrow> main_area" where
  "sweep r [] s = finish r s"
| "sweep r (step # rest) s = suspend r (Highlighted step rest) (animate_ids r (ids step) HIGHLIGHT_ON s)"

definition animateGraph :: "GraphConfig \<Rightarrow> nat \<Rightarrow> bool \<Rightarrow> main_area \<Rightarrow> main_area" where
  "animateGraph config r replied s =
     (if \<not> replied then sweep r (animationSequence config) s
      else finish r (emit (ResetReplied r) (s\<lparr>aiReplied := False\<rparr>)))"

text \<open>
  \<open>waitForAnimationAndRun\<close> from the test of its \<open>while\<close> loop, up to its next
  \<open>await\<close>: either \<open>delay(100)\<close> in the loop, or the lock is taken and
  \<open>animateGraph\<close> runs.
\<close>

definition waitForAnimationAndRun :: "GraphConfig \<Rightarrow> nat \<Rightarrow> bool \<Rightarrow> main_area \<Rightarrow> main_area" where
  "waitForAnimationAndRun config r replied s =
     (if animationLock s then suspend r Polling (emit (Delay r 100) s)
      else animateGraph config r replied (emit (Acquire r) (s\<lparr>animationLock := True\<rparr>)))"

text \<open>The effect of lines 145-186: it starts a run unless both flags are false.\<close>

definition run_effect :: "GraphConfig \<Rightarrow> main_area \<Rightarrow> main_area" where
  "run_effect config s =
     (if \<not> buttonClicked s \<and> \<not> aiReplied s then s
      else waitForAnimationAndRun config (length (runs s)) (aiReplied s)
             (s\<lparr>runs := runs s @ [\<lparr>seen_aiReplied = aiReplied s, point = Polling\<rparr>]\<rparr>))"

text \<open>A run's delay is over and it continues from its \<open>await\<close>.\<close>

definition resume :: "GraphConfig \<Rightarrow> nat \<Rightarrow> main_area \<Rightarrow> main_area" where
  "resume config r s =
     (if r < length (runs s) then
        (case point (runs s ! r) of
           Polling \<Rightarrow> waitForAnimationAndRun config r (seen_aiReplied (runs s ! r)) s
         | Highlighted step rest \<Rightarrow> suspend r (Dimmed rest) (animate_ids r (ids step) HIGHLIGHT_OFF s)
         | Dimmed rest \<Rightarrow> sweep r rest s
         | Returned \<Rightarrow> s)
      else s)"

text \<open>The effect of lines 78-91 puts the configured nodes and edges back.\<close>

definition reconfigure :: "GraphConfig \<Rightarrow> main_area \<Rightarrow> main_area" where
  "reconfigure config s = s\<lparr>nodes := config_nodes config, edges := config_edges config\<rparr>"

text \<open>
  What can happen to the component, one at a time on the single thread: the
  application sets a flag, one of the two effects runs, or the delay of a run is over.
\<close>

datatype happening = Clicked bool | Replied bool | Reconfigure | Effect | Wake nat

fun happen :: "GraphConfig \<Rightarrow> happening \<Rightarrow> main_area \<Rightarrow> main_area" where
  "happen config (Clicked b) s = s\<lparr>buttonClicked := b\<rparr>"
| "happen config (Replied b) s = s\<lparr>aiReplied := b\<rparr>"
| "happen config Reconfigure s = reconfigure config s"
| "happen config Effect s = run_effect config s"
| "happen config (Wake r) s = resume config r s"

definition happenings :: "GraphConfig \<Rightarrow> happening list \<Rightarrow> main_area \<Rightarrow> main_area" where
  "happenings config hs s = fold (happen config) hs s"

definition mounted :: "GraphConfig \<Rightarrow> main_area" where
  "mounted config =
     \<lparr>animationLock = False, nodes = config_nodes config, edges = config_edges config,
      buttonClicked = False, aiReplied = False, runs = [], trace = []\<rparr>"

subsection \<open>Serial traces and the holder of the lock\<close>

text \<open>
  Reading a trace with the holder of the lock in hand. The lock is taken only when
  nobody holds it; only its holder toggles, resets the flags and releases it; the
  holder's delays last \<open>DELAY_DURATION\<close>; any other run delays only while somebody
  holds the lock, and then for 100 ms. \<open>None\<close> is a trace that breaks these rules.
\<close>

fun track :: "nat option \<Rightarrow> event \<Rightarrow> nat option option" where
  "track h (Acquire r) = (if h = None then Some (Some r) else None)"
| "track h (Release r) = (if h = Some r then Some None else None)"
| "track h (Toggle r i a) = (if h = Some r then Some h else None)"
| "track h (Delay r ms) =
     (if h = Some r then (if ms = DELAY_DURATION then Some h else None)
      else if h \<noteq> None \<and> ms = 100 then Some h else None)"
| "track h (ResetReplied r) = (if h = Some r then Some h else None)"
| "track h (ResetClicked r) = (if h = Some r then Some h else None)"

fun tracks :: "nat option \<Rightarrow> event list \<Rightarrow> nat option option" where
  "tracks h [] = Some h"
| "tracks h (ev # evs) = (case track h ev of None \<Rightarrow> None | Some h' \<Rightarrow> tracks h' evs)"






subsection \<open>Pulses\<close>

text \<open>
  What one step of the sequence asks of run \<open>r\<close>: every id of the step switched on,
  the highlight duration, the same ids switched off, the duration again.
\<close>

definition pulse :: "nat \<Rightarrow> AnimationStep \<Rightarrow> event list" where
  "pulse r step =
     map (\<lambda>i. Toggle r i True) (ids step) @ [Delay r 500] @
     map (\<lambda>i. Toggle r i False) (ids step) @ [Delay r 500]"

text \<open>The two calls of \<open>animate\<close> for one step, one after the other.\<close>

definition pulsed :: "nat \<Rightarrow> AnimationStep \<Rightarrow> main_area \<Rightarrow> main_area" where
  "pulsed r step s =
     animate_ids r (ids step) HIGHLIGHT_OFF (animate_ids r (ids step) HIGHLIGHT_ON s)"

text \<open>Switching a set of ids: what \<open>ids.forEach\<close> of \<open>updateStyle\<close> amounts to.\<close>

definition switch :: "string list \<Rightarrow> bool \<Rightarrow> element \<Rightarrow> element" where
  "switch is a obj = (if element_id obj \<in> set is then obj\<lparr>active := Some a\<rparr> else obj)"

text \<open>In every node and edge with one of these ids, \<open>active\<close> has this value.\<close>

definition shown :: "string list \<Rightarrow> bool \<Rightarrow> main_area \<Rightarrow> bool" where
  "shown is a s =
     list_all (\<lambda>obj. element_id obj \<in> set is \<longrightarrow> active obj = Some a) (nodes s @ edges s)"

text \<open>Run \<open>r\<close> has returned; both the flag and the lock are down.\<close>

definition returned :: "nat \<Rightarrow> main_area \<Rightarrow> bool" where
  "returned r s = (r < length (runs s) \<and> point (runs s ! r) = Returned)"

definition released :: "main_area \<Rightarrow> bool" where
  "released s = (\<not> buttonClicked s \<and> \<not> animationLock s)"

text \<open>
  A request and its reply: the click starts a sweep, the reply arrives during the
  first highlight and its run polls once before the sweep goes on.
\<close>

definition click_then_reply :: "happening list" where
  "click_then_reply = [Clicked True, Effect, Replied True, Effect, Wake 1, Wake 0]"

text \<open>A component with one run waiting, started by a click, and the lock free.\<close>

definition one_waiting :: main_area where
  "one_waiting =
     (mounted graphConfig)
       \<lparr>buttonClicked := True, runs := [\<lparr>seen_aiReplied = False, point = Polling\<rparr>]\<rparr>"

text \<open>The same with a run started by a reply.\<close>

definition reply_waiting :: main_area where
  "reply_waiting =
     (mounted graphConfig)
       \<lparr>buttonClicked := True, aiReplied := True,
        runs := [\<lparr>seen_aiReplied = True, point = Polling\<rparr>]\<rparr>"

subsection \<open>What one run does, seen through the interleaving\<close>

text \<open>The run an event belongs to, and the events of run \<open>r\<close>.\<close>

fun actor :: "event \<Rightarrow> nat" where
  "actor (Acquire q) = q"
| "actor (Release q) = q"
| "actor (Toggle q i a) = q"
| "actor (Delay q ms) = q"
| "actor (ResetReplied q) = q"
| "actor (ResetClicked q) = q"

definition by_run :: "nat \<Rightarrow> event \<Rightarrow> bool" where
  "by_run r ev = (actor ev = r)"

text \<open>
  What a run does from taking the lock to releasing it: a reply resets its flag, anything
  else is one pulse per step of the sequence, in order.
\<close>

definition script :: "GraphConfig \<Rightarrow> nat \<Rightarrow> bool \<Rightarrow> event list" where
  "script config r replied =
     [Acquire r] @
     (if replied then [ResetReplied r] else concat (map (pulse r) (animationSequence config))) @
     [ResetClicked r, Release r]"

text \<open>
  The events of a run so far agree with where it is suspended: some number of polling
  delays, and then as much of its script as it has gone through.
\<close>

definition follows :: "GraphConfig \<Rightarrow> nat \<Rightarrow> run_state \<Rightarrow> event list \<Rightarrow> bool" where
  "follows config r t evs =
     (\<exists>n. case point t of
        Polling \<Rightarrow> evs = replicate n (Delay r 100)
      | Highlighted step rest \<Rightarrow>
          \<not> seen_aiReplied t \<and>
          (\<exists>before. animationSequence config = before @ step # rest \<and>
             evs = replicate n (Delay r 100) @ [Acquire r] @ concat (map (pulse r) before) @
               map (\<lambda>i. Toggle r i True) (ids step) @ [Delay r 500])
      | Dimmed rest \<Rightarrow>
          \<not> seen_aiReplied t \<and>
          (\<exists>before. animationSequence config = before @ rest \<and>
             evs = replicate n (Delay r 100) @ [Acquire r] @ concat (map (pulse r) before))
      | Returned \<Rightarrow> evs = replicate n (Delay r 100) @ script config r (seen_aiReplied t))"

definition scripted :: "GraphConfig \<Rightarrow> main_area \<Rightarrow> bool" where
  "scripted config s =
     ((\<forall>r < length (runs s). follows config r (runs s ! r) (filter (by_run r) (trace s))) \<and>
      (\<forall>r \<ge> length (runs s). filter (by_run r) (trace s) = []))"

text \<open>
  One continuation of run \<open>q\<close>: it appends events of its own, moves only itself, and
  stays on its script.
\<close>

definition moves :: "GraphConfig \<Rightarrow> nat \<Rightarrow> main_area \<Rightarrow> main_area \<Rightarrow> bool" where
  "moves config q s s' =
     (\<exists>evs p. trace s' = trace s @ evs \<and> (\<forall>ev \<in> set evs. actor ev = q) \<and>
        runs s' = (runs s)[q := (runs s ! q)\<lparr>point := p\<rparr>] \<and>
        (\<forall>own. follows config q (runs s ! q) own \<longrightarrow>
           follows config q ((runs s ! q)\<lparr>point := p\<rparr>) (own @ evs)))"

subsection \<open>Elements after pulses, and two schedules\<close>

text \<open>The nodes (or edges) once each of these steps has been pulsed: its ids are inactive.\<close>

definition dimmed :: "AnimationStep list \<Rightarrow> element list \<Rightarrow> element list" where
  "dimmed steps objs = fold (\<lambda>step. map (switch (ids step) HIGHLIGHT_OFF)) steps objs"

text \<open>
  A request and its reply. The click starts run 0, which sweeps. The reply arrives and
  starts run 1, which finds the lock held and polls. Run 0 goes through its six delays
  and returns, which resets \<open>buttonClicked\<close>; the effect runs again and starts run 2,
  which finds the lock free and resets \<open>aiReplied\<close>. Run 1 is still waiting.
\<close>

definition reply_during_sweep :: "happening list" where
  "reply_during_sweep =
     [Clicked True, Effect, Replied True, Effect] @ replicate 6 (Wake 0) @ [Effect]"

definition after_reply :: main_area where
  "after_reply = happenings graphConfig reply_during_sweep (mounted graphConfig)"

text \<open>
  A request, the conversation cleared, and a second request whose reply arrives while
  the first sweep still runs. The first click starts run 0, which sweeps. Clearing
  resets \<open>buttonClicked\<close>; the second click starts run 1, which finds the lock held
  and polls. The reply sets \<open>aiReplied\<close> and starts run 2, which polls too. Run 0
  goes through its six delays and returns. Run 1 is still waiting.
\<close>

definition second_click :: "happening list" where
  "second_click =
     [Clicked True, Effect, Clicked False, Effect, Clicked True, Effect, Replied True, Effect] @
     replicate 6 (Wake 0)"

definition after_second_click :: main_area where
  "after_second_click = happenings graphConfig second_click (mounted graphConfig)"

section \<open>Properties of the agent request gateway\<close>

subsection \<open>What a callback invocation and the two blocks leave behind\<close>

lemma invoke_frame:
  assumes "invoke c cb s = (x, s')"
  shows "loading s' = loading s" and "uuids s' = uuids s"
    and "calls s' = calls s @ (if cb = None then [] else [c])"
  using assms
  by (auto simp: invoke_def record_call_def Let_def split: option.splits prod.splits)

lemma invoke_messages:
  assumes "invoke c cb s = (x, s')" and "\<forall>f. cb = Some f \<longrightarrow> silent f"
  shows "messages s' = messages s"
proof (cases cb)
  case None
  with assms show ?thesis by (simp add: invoke_def)
next
  case (Some f)
  with assms(2) have "snd (f (messages s)) = messages s" by (simp add: silent_def)
  with assms(1) Some show ?thesis
    by (auto simp: invoke_def record_call_def Let_def split: prod.splits)
qed

lemma invoke_no_throw:
  assumes "invoke c cb s = (x, s')" and "\<forall>f ms. cb = Some f \<longrightarrow> fst (f ms) = None"
  shows "x = None"
proof (cases cb)
  case None
  with assms show ?thesis by (simp add: invoke_def)
next
  case (Some f)
  with assms(2) have "fst (f (messages s)) = None" by simp
  with assms(1) Some show ?thesis
    by (auto simp: invoke_def record_call_def Let_def split: prod.splits)
qed

lemma catch_block_result:
  assumes "catch_block cbs e err s = (res, s')"
  shows "loading s' = loading s" and "uuids s' = Suc (uuids s)"
    and "(\<forall>f. cb_onError cbs err = Some f \<longrightarrow> silent f) \<Longrightarrow>
         messages s' = rewrite_last
           \<lparr>role = ASSISTANT, content = error_text, ident = uuid_src e (uuids s), animate = False\<rparr>
           (messages s)"
    and "(\<forall>f ms. cb_onError cbs err = Some f \<longrightarrow> fst (f ms) = None) \<Longrightarrow> res = Inr ()"
proof -
  define s2 where "s2 = setMessages (rewrite_last
      \<lparr>role = ASSISTANT, content = error_text, ident = uuid_src e (uuids s), animate = False\<rparr>)
      (s\<lparr>uuids := Suc (uuids s)\<rparr>)"
  obtain x s3 where inv: "invoke (OnError err) (cb_onError cbs err) s2 = (x, s3)"
    by fastforce
  from assms inv have res: "res = (case x of Some y \<Rightarrow> Inl y | None \<Rightarrow> Inr ())" and s': "s' = s3"
    by (auto simp: catch_block_def uuid_def s2_def split: option.splits)
  from invoke_frame [OF inv] show "loading s' = loading s" and "uuids s' = Suc (uuids s)"
    by (simp_all add: s' s2_def setMessages_def)
  { assume "\<forall>f. cb_onError cbs err = Some f \<longrightarrow> silent f"
    from invoke_messages [OF inv this]
    show "messages s' = rewrite_last
           \<lparr>role = ASSISTANT, content = error_text, ident = uuid_src e (uuids s), animate = False\<rparr>
           (messages s)"
      by (simp add: s' s2_def setMessages_def) }
  { assume "\<forall>f ms. cb_onError cbs err = Some f \<longrightarrow> fst (f ms) = None"
    from invoke_no_throw [OF inv this] show "res = Inr ()"
      by (simp add: res) }
qed

lemma rewrite_last_twice: "rewrite_last a (rewrite_last b ms) = rewrite_last a ms"
  by (simp add: rewrite_last_def Let_def)

lemma rewrite_last_snoc: "rewrite_last a (ms @ [b]) = ms @ [a]"
  by (simp add: rewrite_last_def Let_def)

lemma requested_simps [simp]:
  "loading (requested prompt e s) = loading s"
  "uuids (requested prompt e s) = uuids s"
  "messages (requested prompt e s) = inflight e (messages s)"
  "calls (requested prompt e s) = calls s @ [Post prompt]"
  by (simp_all add: requested_def setMessages_def record_call_def)

lemma answered_simps [simp]:
  "loading (answered r e s) = loading s"
  "uuids (answered r e s) = Suc (uuids s)"
  "messages (answered r e s) = rewrite_last (success_message e (uuids s) r) (messages s)"
  "calls (answered r e s) = calls s"
  by (simp_all add: answered_def setMessages_def)

lemma try_block_cases:
  assumes "try_block prompt cbs e s = (res, s')"
  obtains (rejected) err where "response e = Rejected err"
      and "catch_block cbs e err (requested prompt e s) = (res, s')"
    | (fulfilled) r where "response e = Resolved r"
      and "invoke (OnSuccess r) (cb_onSuccess cbs r) (answered r e (requested prompt e s)) = (None, s')"
      and "res = Inr ()"
    | (thrown) r y s5 where "response e = Resolved r"
      and "invoke (OnSuccess r) (cb_onSuccess cbs r) (answered r e (requested prompt e s)) = (Some y, s5)"
      and "catch_block cbs e y s5 = (res, s')"
proof (cases "response e")
  case (Rejected err)
  with assms have "catch_block cbs e err (requested prompt e s) = (res, s')"
    by (simp add: try_block_def requested_def Let_def)
  with Rejected show ?thesis by (rule rejected)
next
  case (Resolved r)
  obtain x s5 where inv:
    "invoke (OnSuccess r) (cb_onSuccess cbs r) (answered r e (requested prompt e s)) = (x, s5)"
    by fastforce
  have eq: "try_block prompt cbs e s =
      (case x of Some y \<Rightarrow> catch_block cbs e y s5 | None \<Rightarrow> (Inr (), s5))"
    using Resolved inv
    by (simp add: try_block_def requested_def answered_def success_message_def uuid_def Let_def
        setMessages_def record_call_def split: option.splits)
  show ?thesis
  proof (cases x)
    case None
    with eq assms have "res = Inr ()" "s' = s5" by simp_all
    with Resolved inv None show ?thesis by (auto intro: fulfilled)
  next
    case (Some y)
    with eq assms have "catch_block cbs e y s5 = (res, s')" by simp
    with Resolved inv Some show ?thesis by (auto intro: thrown)
  qed
qed

lemma try_block_loading:
  assumes "try_block prompt cbs e s = (res, s')"
  shows "loading s' = loading s"
  using assms
proof (cases rule: try_block_cases)
  case (rejected err)
  from catch_block_result(1) [OF rejected(2)] show ?thesis by simp
next
  case (fulfilled r)
  from invoke_frame(1) [OF fulfilled(2)] show ?thesis by simp
next
  case (thrown r y s5)
  from catch_block_result(1) [OF thrown(3)] invoke_frame(1) [OF thrown(2)] show ?thesis by simp
qed

lemma try_block_messages:
  assumes "try_block prompt cbs e s = (res, s')"
    and ok: "\<forall>r f. cb_onSuccess cbs r = Some f \<longrightarrow> silent f"
    and ok': "\<forall>x f. cb_onError cbs x = Some f \<longrightarrow> silent f"
  shows "(\<exists>r. response e = Resolved r \<and>
              messages s' = rewrite_last (success_message e (uuids s) r) (inflight e (messages s))) \<or>
         messages s' = rewrite_last (error_message e (uuids s)) (inflight e (messages s)) \<or>
         messages s' = rewrite_last (error_message e (Suc (uuids s))) (inflight e (messages s))"
  using assms(1)
proof (cases rule: try_block_cases)
  case (rejected err)
  from catch_block_result(3) [OF rejected(2)] ok' show ?thesis
    by (simp add: error_message_def)
next
  case (fulfilled r)
  from ok have "\<forall>f. cb_onSuccess cbs r = Some f \<longrightarrow> silent f" by blast
  from invoke_messages [OF fulfilled(2) this] fulfilled(1) show ?thesis by simp
next
  case (thrown r y s5)
  from ok have "\<forall>f. cb_onSuccess cbs r = Some f \<longrightarrow> silent f" by blast
  from invoke_messages [OF thrown(2) this] invoke_frame(2) [OF thrown(2)]
  have "messages s5 = rewrite_last (success_message e (uuids s) r) (inflight e (messages s))"
    and "uuids s5 = Suc (uuids s)" by simp_all
  with catch_block_result(3) [OF thrown(3)] ok' show ?thesis
    by (simp add: error_message_def rewrite_last_twice)
qed

lemma try_block_fulfilled:
  assumes "try_block prompt cbs e s = (res, s')"
    and ok: "\<forall>r f ms. cb_onSuccess cbs r = Some f \<longrightarrow> fst (f ms) = None"
    and ok': "\<forall>x f ms. cb_onError cbs x = Some f \<longrightarrow> fst (f ms) = None"
  shows "res = Inr ()"
  using assms(1)
proof (cases rule: try_block_cases)
  case (rejected err)
  from catch_block_result(4) [OF rejected(2)] ok' show ?thesis by blast
next
  case (fulfilled r)
  then show ?thesis by simp
next
  case (thrown r y s5)
  from ok have "\<forall>f ms. cb_onSuccess cbs r = Some f \<longrightarrow> fst (f ms) = None" by blast
  from invoke_no_throw [OF thrown(2) this] show ?thesis by simp
qed

lemma started_simps [simp]:
  "loading (started prompt e s) = True"
  "uuids (started prompt e s) = Suc (Suc (uuids s))"
  "messages (started prompt e s) = messages s @
     [\<lparr>role = USER, content = prompt, ident = uuid_src e (uuids s), animate = False\<rparr>,
      \<lparr>role = ASSISTANT, content = placeholder_text, ident = uuid_src e (Suc (uuids s)),
        animate = True\<rparr>]"
  "calls (started prompt e s) = calls s"
  by (simp_all add: started_def setMessages_def setLoading_def)

lemma send_cases:
  assumes "trim prompt \<noteq> []"
  obtains (start_throws) x s5 where
      "invoke OnStart (cb_onStart cbs) (started prompt e s) = (Some x, s5)"
      and "sendMessageWithCallback prompt cbs e s = (Inl x, s5)"
    | (settled) s5 res s6 where
      "invoke OnStart (cb_onStart cbs) (started prompt e s) = (None, s5)"
      and "try_block prompt cbs e s5 = (res, s6)"
      and "sendMessageWithCallback prompt cbs e s = (res, setLoading False s6)"
proof -
  obtain x s5 where inv: "invoke OnStart (cb_onStart cbs) (started prompt e s) = (x, s5)"
    by fastforce
  obtain res s6 where tb: "try_block prompt cbs e s5 = (res, s6)"
    by fastforce
  have eq: "sendMessageWithCallback prompt cbs e s =
      (case x of Some y \<Rightarrow> (Inl y, s5) | None \<Rightarrow> (res, setLoading False s6))"
    using assms inv tb
    by (simp add: sendMessageWithCallback_def started_def uuid_def Let_def split: option.splits)
  show ?thesis
  proof (cases x)
    case None
    with eq inv tb show ?thesis by (auto intro: settled)
  next
    case (Some y)
    with eq inv show ?thesis by (auto intro: start_throws)
  qed
qed

text \<open>
  Once \<open>onStart\<close> has returned, every way out of the \<open>try\<close> statement passes
  through \<open>finally\<close>: the flag is reset.
\<close>

lemma loading_reset:
  assumes "trim prompt \<noteq> []" and "onStart_returns cbs"
  shows "\<not> loading (snd (sendMessageWithCallback prompt cbs e s))"
  using assms(1)
proof (cases rule: send_cases [where cbs = cbs and e = e and s = s])
  case (start_throws x s5)
  from assms(2) have "\<forall>f ms. cb_onStart cbs = Some f \<longrightarrow> fst (f ms) = None"
    by (simp add: onStart_returns_def)
  from invoke_no_throw [OF start_throws(1) this] show ?thesis by simp
next
  case (settled s5 res s6)
  then show ?thesis by (simp add: setLoading_def)
qed

subsection \<open>The log after a call whose request was issued\<close>

text \<open>
  Once \<open>onStart\<close> has returned, the request is issued and it resolves or rejects.
  With callbacks and in-flight code that leave the log alone, the log is then the old
  log, the user message with the prompt, and one assistant entry: the response with
  \<open>animate\<close> set, or the fixed error text without it.
\<close>

lemma settled_log:
  assumes "trim prompt \<noteq> []" and "keeps_log cbs" and "onStart_returns cbs"
    and "inflight e = (\<lambda>ms. ms)"
  shows "\<exists>final.
      messages (snd (sendMessageWithCallback prompt cbs e s)) = messages s @
        [\<lparr>role = USER, content = prompt, ident = uuid_src e (uuids s), animate = False\<rparr>, final] \<and>
      length (messages (snd (sendMessageWithCallback prompt cbs e s))) = length (messages s) + 2 \<and>
      role final = ASSISTANT \<and>
      ((\<exists>r. response e = Resolved r \<and> content final = r \<and> animate final) \<or>
       (content final = error_text \<and> \<not> animate final)) \<and>
      (content final = placeholder_text \<longrightarrow> response e = Resolved placeholder_text) \<and>
      (inj (uuid_src e) \<longrightarrow> final \<noteq> \<lparr>role = ASSISTANT, content = placeholder_text,
          ident = uuid_src e (Suc (uuids s)), animate = True\<rparr>)"
  using assms(1)
proof (cases rule: send_cases [where cbs = cbs and e = e and s = s])
  case (start_throws x s5)
  from assms(3) have "\<forall>f ms. cb_onStart cbs = Some f \<longrightarrow> fst (f ms) = None"
    by (simp add: onStart_returns_def)
  from invoke_no_throw [OF start_throws(1) this] show ?thesis by simp
next
  case (settled s5 res s6)
  let ?u = "\<lparr>role = USER, content = prompt, ident = uuid_src e (uuids s), animate = False\<rparr>"
  let ?p = "\<lparr>role = ASSISTANT, content = placeholder_text, ident = uuid_src e (Suc (uuids s)),
        animate = True\<rparr>"
  from assms(2) have k1: "\<forall>f. cb_onStart cbs = Some f \<longrightarrow> silent f"
    and k2: "\<forall>r f. cb_onSuccess cbs r = Some f \<longrightarrow> silent f"
    and k3: "\<forall>x f. cb_onError cbs x = Some f \<longrightarrow> silent f"
    by (simp_all add: keeps_log_def)
  from invoke_messages [OF settled(1) k1] invoke_frame(2) [OF settled(1)]
  have m5: "messages s5 = (messages s @ [?u]) @ [?p]" and u5: "uuids s5 = Suc (Suc (uuids s))"
    by simp_all
  have out: "messages (snd (sendMessageWithCallback prompt cbs e s)) = messages s6"
    by (simp add: settled(3) setLoading_def)
  have neq: "error_text \<noteq> placeholder_text"
    by (simp add: error_text_def placeholder_text_def)
  from try_block_messages [OF settled(2) k2 k3]
  consider (ok) r where "response e = Resolved r"
      "messages s6 = messages s @ [?u, success_message e (Suc (Suc (uuids s))) r]"
    | (err) n where "n = Suc (Suc (uuids s)) \<or> n = Suc (Suc (Suc (uuids s)))"
      "messages s6 = messages s @ [?u, error_message e n]"
    unfolding m5 u5 assms(4) rewrite_last_snoc by auto
  then show ?thesis
  proof cases
    case ok
    have "inj (uuid_src e) \<Longrightarrow> uuid_src e (Suc (Suc (uuids s))) \<noteq> uuid_src e (Suc (uuids s))"
      by (auto dest: injD)
    with ok show ?thesis
      unfolding out by (auto simp: success_message_def)
  next
    case err
    with neq show ?thesis
      unfolding out by (auto simp: error_message_def)
  qed
qed

subsection \<open>Concrete calls\<close>

lemma trim_status: "trim ''Any delays?'' \<noteq> []"
  by (simp add: trim_def is_ws_def)

lemma trim_blank: "trim ''   '' = []"
  by (simp add: trim_def is_ws_def)

lemma keeps_log_quiet: "keeps_log (Some quiet_callbacks)"
  by (simp add: keeps_log_def cb_onStart_def cb_onSuccess_def cb_onError_def quiet_callbacks_def
      silent_def)

lemma never_throws_quiet: "never_throws (Some quiet_callbacks)"
  by (simp add: never_throws_def cb_onStart_def cb_onSuccess_def cb_onError_def quiet_callbacks_def)

lemma onStart_returns_quiet: "onStart_returns (Some quiet_callbacks)"
  by (simp add: onStart_returns_def cb_onStart_def quiet_callbacks_def)

lemma inj_demo_uuid: "inj (uuid_src (demo_env r))"
  by (auto simp: demo_env_def inj_on_def dest: arg_cong [where f = length])

lemma send_resolved_example:
  "sendMessageWithCallback ''Any delays?'' (Some quiet_callbacks)
     (demo_env (Resolved ''No delays.'')) idle =
   (Inr (),
    \<lparr>messages =
       [\<lparr>role = USER, content = ''Any delays?'', ident = ''u'', animate = False\<rparr>,
        \<lparr>role = ASSISTANT, content = ''No delays.'', ident = ''uuu'', animate = True\<rparr>],
     loading = False,
     calls = [OnStart, Post ''Any delays?'', OnSuccess ''No delays.''],
     uuids = 3\<rparr>)"
  using trim_status
  by (simp add: sendMessageWithCallback_def try_block_def uuid_def setMessages_def setLoading_def
      invoke_def record_call_def cb_onStart_def cb_onSuccess_def quiet_callbacks_def demo_env_def
      idle_def rewrite_last_def Let_def numeral_3_eq_3)

text \<open>
  C1. The placeholder is not replaced after every call that settles: \<open>onStart\<close> is
  called after the placeholder was appended and before \<open>try\<close>, so when it throws
  the call settles by rejecting with \<open>onStart\<close>'s exception, no request was issued,
  the log is two entries longer, and its final entry is still the \<open>"..."\<close>
  placeholder, which is neither a response nor the error text.
\<close>

theorem onStart_throw_keeps_placeholder:
  "trim ''Any delays?'' \<noteq> [] \<and>
   fst (sendMessageWithCallback ''Any delays?'' (Some throwing_onStart) e s) =
     Inl (Error ''boom'') \<and>
   calls (snd (sendMessageWithCallback ''Any delays?'' (Some throwing_onStart) e s)) =
     calls s @ [OnStart] \<and>
   length (messages (snd (sendMessageWithCallback ''Any delays?'' (Some throwing_onStart) e s))) =
     length (messages s) + 2 \<and>
   last (messages (snd (sendMessageWithCallback ''Any delays?'' (Some throwing_onStart) e s))) =
     \<lparr>role = ASSISTANT, content = ''...'', ident = uuid_src e (Suc (uuids s)), animate = True\<rparr> \<and>
   ''...'' \<noteq> error_text"
  using trim_status
  by (simp add: sendMessageWithCallback_def uuid_def setMessages_def setLoading_def invoke_def
      record_call_def cb_onStart_def throwing_onStart_def placeholder_text_def error_text_def
      Let_def)

text \<open>
  C2. The loading flag is not reset for every outcome: \<open>onStart\<close> is called after
  \<open>setLoading(true)\<close> and before \<open>try\<close>, so when it throws the promise is rejected
  with \<open>loading\<close> still set and the placeholder still last in the log.
\<close>

theorem onStart_throw_leaves_loading:
  "sendMessageWithCallback ''Any delays?'' (Some throwing_onStart) e s =
     (Inl (Error ''boom''),
      s\<lparr>messages := messages s @
           [\<lparr>role = USER, content = ''Any delays?'', ident = uuid_src e (uuids s), animate = False\<rparr>,
            \<lparr>role = ASSISTANT, content = ''...'', ident = uuid_src e (Suc (uuids s)),
              animate = True\<rparr>],
         loading := True, calls := calls s @ [OnStart], uuids := Suc (Suc (uuids s))\<rparr>)"
  using trim_status
  by (simp add: sendMessageWithCallback_def uuid_def setMessages_def setLoading_def invoke_def
      record_call_def cb_onStart_def throwing_onStart_def placeholder_text_def Let_def)

text \<open>
  C6. A prompt that trims to the empty string: the call returns with the log, the
  loading flag and the record of calls (callbacks, requests) exactly as before.
\<close>

theorem blank_prompt_ignored:
  "trim prompt = [] \<Longrightarrow> sendMessageWithCallback prompt cbs e s = (Inr (), s)"
  by (simp add: sendMessageWithCallback_def)

theorem blank_prompt_ignored_witness:
  "trim ''   '' = [] \<and>
   sendMessageWithCallback ''   '' (Some quiet_callbacks) (demo_env (Resolved ''No delays.'')) idle =
     (Inr (), idle)"
  using trim_blank blank_prompt_ignored [OF trim_blank] by simp

text \<open>
  C9. \<open>sendMessage\<close> on a prompt that trims to the empty string throws
  \<open>Error("Prompt cannot be empty")\<close> with the state untouched: the loading flag was
  not set and no request was issued; \<open>sendMessageWithCallback\<close> returns normally on
  the same prompt.
\<close>

theorem sendMessage_rejects_blank:
  "trim prompt = [] \<Longrightarrow>
     sendMessage prompt e s = (Inl (Error ''Prompt cannot be empty''), s) \<and>
     fst (sendMessageWithCallback prompt cbs e s) = Inr ()"
  by (simp add: sendMessage_def sendMessageWithCallback_def)

theorem sendMessage_rejects_blank_witness:
  "trim ''   '' = [] \<and>
   sendMessage ''   '' (demo_env (Resolved ''No delays.'')) idle =
     (Inl (Error ''Prompt cannot be empty''), idle) \<and>
   fst (sendMessageWithCallback ''   '' None (demo_env (Resolved ''No delays.'')) idle) = Inr ()"
  using trim_blank sendMessage_rejects_blank [OF trim_blank] by simp

text \<open>
  C10. The conversation is cleared while the request is awaited: the write at index
  \<open>-1\<close> leaves the empty list empty, the log is empty after the call, and the call
  raises nothing of its own (the promise is fulfilled when no callback throws).
\<close>

theorem rewrite_on_empty_log:
  assumes "trim prompt \<noteq> []" and "keeps_log cbs" and "onStart_returns cbs"
    and "inflight e = (\<lambda>ms. [])"
  shows "rewrite_last m [] = [] \<and>
     messages (snd (sendMessageWithCallback prompt cbs e s)) = [] \<and>
     (never_throws cbs \<longrightarrow> fst (sendMessageWithCallback prompt cbs e s) = Inr ())"
  using assms(1)
proof (cases rule: send_cases [where cbs = cbs and e = e and s = s])
  case (start_throws x s5)
  from assms(3) have "\<forall>f ms. cb_onStart cbs = Some f \<longrightarrow> fst (f ms) = None"
    by (simp add: onStart_returns_def)
  from invoke_no_throw [OF start_throws(1) this] show ?thesis by simp
next
  case (settled s5 res s6)
  from assms(2) have k2: "\<forall>r f. cb_onSuccess cbs r = Some f \<longrightarrow> silent f"
    and k3: "\<forall>x f. cb_onError cbs x = Some f \<longrightarrow> silent f"
    by (simp_all add: keeps_log_def)
  have e: "rewrite_last m' [] = []" for m'
    by (simp add: rewrite_last_def)
  from try_block_messages [OF settled(2) k2 k3] have "messages s6 = []"
    unfolding assms(4) e by auto
  moreover have "res = Inr ()" if "never_throws cbs"
    using that try_block_fulfilled [OF settled(2)] by (simp add: never_throws_def)
  ultimately show ?thesis
    by (simp add: settled(3) setLoading_def e)
qed

theorem rewrite_on_empty_log_witness:
  "trim ''Any delays?'' \<noteq> [] \<and> keeps_log (Some quiet_callbacks) \<and>
   onStart_returns (Some quiet_callbacks) \<and>
   inflight (clearing_env (Rejected (Error ''Network Error''))) = (\<lambda>ms. []) \<and>
   never_throws (Some quiet_callbacks) \<and>
   rewrite_last \<lparr>role = ASSISTANT, content = error_text, ident = ''uuu'', animate = False\<rparr> [] = [] \<and>
   messages (snd (sendMessageWithCallback ''Any delays?'' (Some quiet_callbacks)
      (clearing_env (Rejected (Error ''Network Error''))) idle)) = [] \<and>
   fst (sendMessageWithCallback ''Any delays?'' (Some quiet_callbacks)
      (clearing_env (Rejected (Error ''Network Error''))) idle) = Inr ()"
proof -
  have h4: "inflight (clearing_env (Rejected (Error ''Network Error''))) = (\<lambda>ms. [])"
    by (simp add: clearing_env_def)
  from rewrite_on_empty_log [OF trim_status keeps_log_quiet onStart_returns_quiet h4,
      of "\<lparr>role = ASSISTANT, content = error_text, ident = ''uuu'', animate = False\<rparr>" idle]
    trim_status keeps_log_quiet onStart_returns_quiet h4 never_throws_quiet
  show ?thesis by blast
qed

section \<open>Properties of the chat area measurement\<close>
















section \<open>Properties of the animation\<close>

subsection \<open>Every happening keeps the lock with one holder\<close>

lemma tracks_append:
  "tracks h (evs @ evs') = (case tracks h evs of None \<Rightarrow> None | Some h' \<Rightarrow> tracks h' evs')"
  by (induction evs arbitrary: h) (auto split: option.splits)

lemma tracks_snoc:
  "tracks h evs = Some h' \<Longrightarrow> tracks h (evs @ [ev]) = track h' ev"
  by (simp add: tracks_append split: option.splits)

lemma toggles_frame:
  "animationLock (fold (\<lambda>i. updateStyle r i a) is s) = animationLock s"
  "runs (fold (\<lambda>i. updateStyle r i a) is s) = runs s"
  "buttonClicked (fold (\<lambda>i. updateStyle r i a) is s) = buttonClicked s"
  "aiReplied (fold (\<lambda>i. updateStyle r i a) is s) = aiReplied s"
  "trace (fold (\<lambda>i. updateStyle r i a) is s) = trace s @ map (\<lambda>i. Toggle r i a) is"
  by (induction "is" arbitrary: s; simp add: updateStyle_def emit_def)+


lemma animate_ids_frame:
  "animationLock (animate_ids r is a s) = animationLock s"
  "runs (animate_ids r is a s) = runs s"
  "buttonClicked (animate_ids r is a s) = buttonClicked s"
  "aiReplied (animate_ids r is a s) = aiReplied s"
  "trace (animate_ids r is a s) = trace s @ map (\<lambda>i. Toggle r i a) is @ [Delay r DELAY_DURATION]"
  by (simp_all add: animate_ids_def emit_def toggles_frame)


lemma suspend_simps:
  "animationLock (suspend r p s) = animationLock s"
  "trace (suspend r p s) = trace s"
  "length (runs (suspend r p s)) = length (runs s)"
  "r' < length (runs s) \<Longrightarrow>
     point (runs (suspend r p s) ! r') = (if r' = r then p else point (runs s ! r'))"
  by (simp_all add: suspend_def nth_list_update)














subsection \<open>Mutual exclusion\<close>

lemma finish_simps:
  "trace (finish r s) = trace s @ [ResetClicked r, Release r]"
  "nodes (finish r s) = nodes s" "edges (finish r s) = edges s"
  "aiReplied (finish r s) = aiReplied s"
  "\<not> buttonClicked (finish r s)" "\<not> animationLock (finish r s)"
  "length (runs (finish r s)) = length (runs s)"
  "r < length (runs s) \<Longrightarrow> point (runs (finish r s) ! r) = Returned"
  by (simp_all add: finish_def suspend_def emit_def)




lemma click_then_reply_run:
  "happenings graphConfig click_then_reply (mounted graphConfig) =
     \<lparr>animationLock = True,
      nodes = [\<lparr>element_id = ''1'', active = Some False\<rparr>, \<lparr>element_id = ''2'', active = None\<rparr>],
      edges = [\<lparr>element_id = ''1-2'', active = None\<rparr>],
      buttonClicked = True, aiReplied = True,
      runs = [\<lparr>seen_aiReplied = False, point = Dimmed [\<lparr>ids = [''1-2'']\<rparr>, \<lparr>ids = [''2'']\<rparr>]\<rparr>,
              \<lparr>seen_aiReplied = True, point = Polling\<rparr>],
      trace = [Acquire 0, Toggle 0 ''1'' True, Delay 0 500, Delay 1 100, Delay 1 100,
               Toggle 0 ''1'' False, Delay 0 500]\<rparr>"
  by (simp add: happenings_def click_then_reply_def mounted_def graphConfig_def run_effect_def
      resume_def waitForAnimationAndRun_def animateGraph_def animate_ids_def updateStyle_def
      set_active_def emit_def suspend_def DELAY_DURATION_def HIGHLIGHT_ON_def HIGHLIGHT_OFF_def)


subsection \<open>A sweep is its pulses, one after the other\<close>

lemma suspend_suspend: "suspend r p (suspend r q s) = suspend r p s"
  by (cases "r < length (runs s)") (simp_all add: suspend_def list_update_beyond)

lemma updateStyle_suspend: "updateStyle r i a (suspend r' p s) = suspend r' p (updateStyle r i a s)"
  by (simp add: updateStyle_def suspend_def emit_def)

lemma toggles_suspend:
  "fold (\<lambda>i. updateStyle r i a) is (suspend r' p s) = suspend r' p (fold (\<lambda>i. updateStyle r i a) is s)"
  by (induction "is" arbitrary: s) (simp_all add: updateStyle_suspend)

lemma animate_ids_suspend:
  "animate_ids r is a (suspend r' p s) = suspend r' p (animate_ids r is a s)"
  by (simp add: animate_ids_def toggles_suspend) (simp add: suspend_def emit_def)

lemma finish_suspend: "finish r (suspend r p s) = finish r s"
  by (cases "r < length (runs s)") (simp_all add: finish_def suspend_def emit_def list_update_beyond)

lemma sweep_suspend: "sweep r steps (suspend r p s) = sweep r steps s"
  by (cases steps) (simp_all add: finish_suspend animate_ids_suspend suspend_suspend)

lemma pulsed_frame:
  "runs (pulsed r step s) = runs s"
  "animationLock (pulsed r step s) = animationLock s"
  "buttonClicked (pulsed r step s) = buttonClicked s"
  "aiReplied (pulsed r step s) = aiReplied s"
  "trace (pulsed r step s) = trace s @ pulse r step"
  by (simp_all add: pulsed_def pulse_def animate_ids_frame DELAY_DURATION_def HIGHLIGHT_ON_def
      HIGHLIGHT_OFF_def)

lemma pulses_frame:
  "runs (fold (pulsed r) steps s) = runs s"
  "animationLock (fold (pulsed r) steps s) = animationLock s"
  "buttonClicked (fold (pulsed r) steps s) = buttonClicked s"
  "aiReplied (fold (pulsed r) steps s) = aiReplied s"
  "trace (fold (pulsed r) steps s) = trace s @ concat (map (pulse r) steps)"
  by (induction steps arbitrary: s; simp add: pulsed_frame)+

lemma two_wakes:
  assumes "r < length (runs s)"
  shows "happen config (Wake r) (happen config (Wake r) (sweep r (step # rest) s)) =
    sweep r rest (pulsed r step s)"
proof -
  let ?on = "animate_ids r (ids step) HIGHLIGHT_ON s"
  have r: "r < length (runs ?on)"
    using assms by (simp add: animate_ids_frame)
  have 1: "happen config (Wake r) (sweep r (step # rest) s) = suspend r (Dimmed rest) (pulsed r step s)"
    using r
    by (simp add: resume_def suspend_simps animate_ids_suspend suspend_suspend pulsed_def)
  have "r < length (runs (pulsed r step s))"
    using assms by (simp add: pulsed_frame)
  then have "happen config (Wake r) (suspend r (Dimmed rest) (pulsed r step s)) =
      sweep r rest (pulsed r step s)"
    by (simp add: resume_def suspend_simps sweep_suspend)
  with 1 show ?thesis by simp
qed

lemma sweep_pulses:
  assumes "r < length (runs s)" and "k \<le> length steps"
  shows "happenings config (replicate (2 * k) (Wake r)) (sweep r steps s) =
    sweep r (drop k steps) (fold (pulsed r) (take k steps) s)"
  using assms
proof (induction k arbitrary: steps s)
  case 0
  then show ?case by (simp add: happenings_def)
next
  case (Suc k)
  then obtain step rest where steps: "steps = step # rest"
    by (cases steps) auto
  from Suc.prems have r: "r < length (runs (pulsed r step s))" and k: "k \<le> length rest"
    by (simp_all add: pulsed_frame steps)
  have "happenings config (replicate (2 * Suc k) (Wake r)) (sweep r steps s) =
      happenings config (replicate (2 * k) (Wake r))
        (happen config (Wake r) (happen config (Wake r) (sweep r (step # rest) s)))"
    by (simp add: happenings_def steps)
  also have "\<dots> = happenings config (replicate (2 * k) (Wake r)) (sweep r rest (pulsed r step s))"
    by (simp only: two_wakes [OF Suc.prems(1)])
  also have "\<dots> = sweep r (drop k rest) (fold (pulsed r) (take k rest) (pulsed r step s))"
    by (rule Suc.IH [OF r k])
  finally show ?case by (simp add: steps)
qed

lemma happenings_snoc:
  "happenings config (xs @ [x]) s = happen config x (happenings config xs s)"
  by (simp add: happenings_def)

lemma sweep_pulses_on:
  assumes "r < length (runs s)" and "k < length steps"
  shows "happenings config (replicate (2 * k) (Wake r)) (sweep r steps s) =
    suspend r (Highlighted (steps ! k) (drop (Suc k) steps))
      (animate_ids r (ids (steps ! k)) HIGHLIGHT_ON (fold (pulsed r) (take k steps) s))"
proof -
  from assms(2) have "drop k steps = steps ! k # drop (Suc k) steps"
    by (simp add: Cons_nth_drop_Suc)
  with sweep_pulses [OF assms(1), of k steps config] assms(2) show ?thesis by simp
qed

lemma sweep_pulses_off:
  assumes "r < length (runs s)" and "k < length steps"
  shows "happenings config (replicate (2 * k + 1) (Wake r)) (sweep r steps s) =
    suspend r (Dimmed (drop (Suc k) steps)) (fold (pulsed r) (take (Suc k) steps) s)"
proof -
  let ?s = "fold (pulsed r) (take k steps) s"
  have r: "r < length (runs (animate_ids r (ids (steps ! k)) HIGHLIGHT_ON ?s))"
    using assms(1) by (simp add: animate_ids_frame pulses_frame)
  have "replicate (2 * k + 1) (Wake r) = replicate (2 * k) (Wake r) @ [Wake r]"
    by (simp add: replicate_append_same)
  then have "happenings config (replicate (2 * k + 1) (Wake r)) (sweep r steps s) =
      happen config (Wake r) (happenings config (replicate (2 * k) (Wake r)) (sweep r steps s))"
    by (simp only: happenings_snoc)
  also have "\<dots> = suspend r (Dimmed (drop (Suc k) steps)) (pulsed r (steps ! k) ?s)"
    using r
    by (simp add: sweep_pulses_on [OF assms] resume_def suspend_simps animate_ids_suspend
        suspend_suspend pulsed_def)
  also have "pulsed r (steps ! k) ?s = fold (pulsed r) (take (Suc k) steps) s"
    using assms(2) by (simp add: take_Suc_conv_app_nth)
  finally show ?thesis .
qed

lemma set_active_switch: "switch is a (set_active i a obj) = switch (i # is) a obj"
  by (simp add: switch_def set_active_def)

lemma updateStyle_elements:
  "nodes (updateStyle r i a s) = map (set_active i a) (nodes s)"
  "edges (updateStyle r i a s) = map (set_active i a) (edges s)"
  by (simp_all add: updateStyle_def emit_def)

lemma toggles_switch:
  "nodes (fold (\<lambda>i. updateStyle r i a) is s) = map (switch is a) (nodes s) \<and>
   edges (fold (\<lambda>i. updateStyle r i a) is s) = map (switch is a) (edges s)"
proof (induction "is" arbitrary: s)
  case Nil
  show ?case by (simp add: switch_def)
next
  case (Cons i "is")
  from Cons.IH [of "updateStyle r i a s"] show ?case
    by (simp add: updateStyle_elements set_active_switch)
qed

lemma animate_ids_shown: "shown is a (animate_ids r is a s)"
  by (auto simp: shown_def animate_ids_def emit_def toggles_switch list_all_iff switch_def)

lemma suspend_shown: "shown is a (suspend r p s) = shown is a s"
  by (simp add: shown_def suspend_def)

subsection \<open>The sweep\<close>

lemma acquired_frame:
  "runs (emit (Acquire r) (s\<lparr>animationLock := True\<rparr>)) = runs s"
  "trace (emit (Acquire r) (s\<lparr>animationLock := True\<rparr>)) = trace s @ [Acquire r]"
  by (simp_all add: emit_def)

lemma wait_sweeps:
  assumes "\<not> animationLock s"
  shows "waitForAnimationAndRun config r False s =
    sweep r (animationSequence config) (emit (Acquire r) (s\<lparr>animationLock := True\<rparr>))"
  using assms by (simp add: waitForAnimationAndRun_def animateGraph_def)

lemma solo_sweep:
  assumes "r < length (runs s)" and "\<not> animationLock s"
  shows "(let steps = animationSequence config;
              s0 = waitForAnimationAndRun config r False s;
              s_end = happenings config (replicate (2 * length steps) (Wake r)) s0
          in trace s_end =
               trace s @ [Acquire r] @ concat (map (pulse r) steps) @ [ResetClicked r, Release r] \<and>
             point (runs s_end ! r) = Returned \<and>
             (\<forall>k < length steps.
                (let s_on = happenings config (replicate (2 * k) (Wake r)) s0;
                     s_off = happenings config (replicate (2 * k + 1) (Wake r)) s0
                 in point (runs s_on ! r) = Highlighted (steps ! k) (drop (Suc k) steps) \<and>
                    shown (ids (steps ! k)) True s_on \<and>
                    trace s_on = trace s @ [Acquire r] @ concat (map (pulse r) (take k steps)) @
                      map (\<lambda>i. Toggle r i True) (ids (steps ! k)) @ [Delay r 500] \<and>
                    point (runs s_off ! r) = Dimmed (drop (Suc k) steps) \<and>
                    shown (ids (steps ! k)) False s_off \<and>
                    trace s_off =
                      trace s @ [Acquire r] @ concat (map (pulse r) (take (Suc k) steps)))))"
proof -
  let ?steps = "animationSequence config"
  let ?a = "emit (Acquire r) (s\<lparr>animationLock := True\<rparr>)"
  let ?s0 = "waitForAnimationAndRun config r False s"
  have s0: "?s0 = sweep r ?steps ?a"
    using assms(2) by (rule wait_sweeps)
  have r: "r < length (runs ?a)"
    using assms(1) by (simp add: acquired_frame)
  have fin: "happenings config (replicate (2 * length ?steps) (Wake r)) ?s0 =
      finish r (fold (pulsed r) ?steps ?a)"
    unfolding s0 using sweep_pulses [OF r, of "length ?steps" ?steps config] by simp
  have 1: "trace (happenings config (replicate (2 * length ?steps) (Wake r)) ?s0) =
      trace s @ [Acquire r] @ concat (map (pulse r) ?steps) @ [ResetClicked r, Release r]"
    unfolding fin by (simp add: finish_simps pulses_frame acquired_frame)
  have 2: "point (runs (happenings config (replicate (2 * length ?steps) (Wake r)) ?s0) ! r) = Returned"
    unfolding fin using r by (simp add: finish_simps pulses_frame)
  have 3: "point (runs (happenings config (replicate (2 * k) (Wake r)) ?s0) ! r) =
        Highlighted (?steps ! k) (drop (Suc k) ?steps) \<and>
      shown (ids (?steps ! k)) True (happenings config (replicate (2 * k) (Wake r)) ?s0) \<and>
      trace (happenings config (replicate (2 * k) (Wake r)) ?s0) =
        trace s @ [Acquire r] @ concat (map (pulse r) (take k ?steps)) @
        map (\<lambda>i. Toggle r i True) (ids (?steps ! k)) @ [Delay r 500]"
    if "k < length ?steps" for k
    unfolding s0 sweep_pulses_on [OF r that]
    using r animate_ids_shown [of "ids (?steps ! k)" True r "fold (pulsed r) (take k ?steps) ?a"]
    by (simp add: suspend_simps suspend_shown animate_ids_frame pulses_frame acquired_frame
        HIGHLIGHT_ON_def DELAY_DURATION_def)
  have 4: "point (runs (happenings config (replicate (2 * k + 1) (Wake r)) ?s0) ! r) =
        Dimmed (drop (Suc k) ?steps) \<and>
      shown (ids (?steps ! k)) False (happenings config (replicate (2 * k + 1) (Wake r)) ?s0) \<and>
      trace (happenings config (replicate (2 * k + 1) (Wake r)) ?s0) =
        trace s @ [Acquire r] @ concat (map (pulse r) (take (Suc k) ?steps))"
    if "k < length ?steps" for k
  proof -
    have "fold (pulsed r) (take (Suc k) ?steps) ?a =
        animate_ids r (ids (?steps ! k)) False
          (animate_ids r (ids (?steps ! k)) True (fold (pulsed r) (take k ?steps) ?a))"
      using that by (simp add: take_Suc_conv_app_nth pulsed_def HIGHLIGHT_ON_def HIGHLIGHT_OFF_def)
    then have "shown (ids (?steps ! k)) False (fold (pulsed r) (take (Suc k) ?steps) ?a)"
      by (simp add: animate_ids_shown)
    then show ?thesis
      unfolding s0 sweep_pulses_off [OF r that]
      using r by (simp add: suspend_simps suspend_shown pulses_frame acquired_frame)
  qed
  from 1 2 3 4 show ?thesis
    by (simp add: Let_def)
qed

subsection \<open>The reply short-circuit and the end of a run\<close>

lemma finish_released: "released (finish r s)"
  by (simp add: released_def finish_simps)

lemma suspend_returned:
  assumes "returned q (suspend r p s)" and "p \<noteq> Returned"
  shows "returned q s"
  using assms by (auto simp: returned_def suspend_simps split: if_splits)

lemma animate_ids_returned: "returned q (animate_ids r is a s) = returned q s"
  by (simp add: returned_def animate_ids_frame)

lemma sweep_returns:
  assumes "\<not> returned q s" and "returned q (sweep r steps s)"
  shows "released (sweep r steps s)"
proof (cases steps)
  case Nil
  then show ?thesis by (simp add: finish_released)
next
  case (Cons step rest)
  with assms(2) have "returned q (animate_ids r (ids step) HIGHLIGHT_ON s)"
    by (auto dest: suspend_returned)
  with assms(1) show ?thesis by (simp add: animate_ids_returned)
qed

lemma wait_returns:
  assumes "\<not> returned q s" and "returned q (waitForAnimationAndRun config r replied s)"
  shows "released (waitForAnimationAndRun config r replied s)"
proof (cases "animationLock s")
  case True
  with assms(2) have "returned q (emit (Delay r 100) s)"
    by (auto simp: waitForAnimationAndRun_def dest: suspend_returned)
  with assms(1) show ?thesis by (simp add: returned_def emit_def)
next
  case False
  let ?a = "emit (Acquire r) (s\<lparr>animationLock := True\<rparr>)"
  from assms(1) have n: "\<not> returned q ?a" by (simp add: returned_def emit_def)
  show ?thesis
  proof (cases replied)
    case True
    with False show ?thesis
      by (simp add: waitForAnimationAndRun_def animateGraph_def finish_released)
  next
    case no: False
    with False assms(2) have "returned q (sweep r (animationSequence config) ?a)"
      by (simp add: waitForAnimationAndRun_def animateGraph_def)
    from sweep_returns [OF n this] False no show ?thesis
      by (simp add: waitForAnimationAndRun_def animateGraph_def)
  qed
qed

lemma resume_returns:
  assumes "\<not> returned q s" and "returned q (resume config r s)"
  shows "released (resume config r s)"
proof (cases "r < length (runs s)")
  case False
  with assms show ?thesis by (simp add: resume_def)
next
  case True
  show ?thesis
  proof (cases "point (runs s ! r)")
    case Polling
    with True assms wait_returns [of q s config r "seen_aiReplied (runs s ! r)"] show ?thesis
      by (simp add: resume_def)
  next
    case (Highlighted step rest)
    with True assms(2) have "returned q (animate_ids r (ids step) HIGHLIGHT_OFF s)"
      by (auto simp: resume_def dest: suspend_returned)
    with assms(1) show ?thesis by (simp add: animate_ids_returned)
  next
    case (Dimmed rest)
    with True assms sweep_returns [of q s r rest] show ?thesis
      by (simp add: resume_def)
  next
    case Returned
    with True assms show ?thesis by (simp add: resume_def)
  qed
qed

lemma run_effect_returns:
  assumes "\<not> returned q s" and "returned q (run_effect config s)"
  shows "released (run_effect config s)"
proof (cases "\<not> buttonClicked s \<and> \<not> aiReplied s")
  case True
  with assms show ?thesis by (simp add: run_effect_def)
next
  case False
  let ?s = "s\<lparr>runs := runs s @ [\<lparr>seen_aiReplied = aiReplied s, point = Polling\<rparr>]\<rparr>"
  from assms(1) have "\<not> returned q ?s"
    by (auto simp: returned_def nth_append less_Suc_eq)
  moreover from False assms(2)
  have "returned q (waitForAnimationAndRun config (length (runs s)) (aiReplied s) ?s)"
    by (auto simp: run_effect_def)
  ultimately have "released (waitForAnimationAndRun config (length (runs s)) (aiReplied s) ?s)"
    by (rule wait_returns)
  with False show ?thesis by (auto simp: run_effect_def)
qed

lemma happen_returns:
  assumes "\<not> returned q s" and "returned q (happen config x s)"
  shows "released (happen config x s)"
proof (cases x)
  case (Clicked b)
  with assms show ?thesis by (simp add: returned_def)
next
  case (Replied b)
  with assms show ?thesis by (simp add: returned_def)
next
  case Reconfigure
  with assms show ?thesis by (simp add: returned_def reconfigure_def)
next
  case Effect
  with assms run_effect_returns [of q s config] show ?thesis by simp
next
  case (Wake r)
  with assms resume_returns [of q s config r] show ?thesis by simp
qed

lemma short_circuit:
  assumes "r < length (runs s)" and "\<not> animationLock s"
  shows "waitForAnimationAndRun config r True s =
    finish r (emit (ResetReplied r) (emit (Acquire r) (s\<lparr>animationLock := True\<rparr>)\<lparr>aiReplied := False\<rparr>))"
  using assms(2) by (simp add: waitForAnimationAndRun_def animateGraph_def)

subsection \<open>Nodes and edges along a sweep, and two schedules run\<close>

lemmas animation_defs = happenings_def mounted_def graphConfig_def run_effect_def
  resume_def waitForAnimationAndRun_def animateGraph_def animate_ids_def updateStyle_def
  set_active_def emit_def suspend_def finish_def DELAY_DURATION_def HIGHLIGHT_ON_def
  HIGHLIGHT_OFF_def

lemma after_reply_state:
  "after_reply =
     \<lparr>animationLock = False,
      nodes = [\<lparr>element_id = ''1'', active = Some False\<rparr>, \<lparr>element_id = ''2'', active = Some False\<rparr>],
      edges = [\<lparr>element_id = ''1-2'', active = Some False\<rparr>],
      buttonClicked = False, aiReplied = False,
      runs = [\<lparr>seen_aiReplied = False, point = Returned\<rparr>,
              \<lparr>seen_aiReplied = True, point = Polling\<rparr>,
              \<lparr>seen_aiReplied = True, point = Returned\<rparr>],
      trace = [Acquire 0, Toggle 0 ''1'' True, Delay 0 500, Delay 1 100,
               Toggle 0 ''1'' False, Delay 0 500,
               Toggle 0 ''1-2'' True, Delay 0 500, Toggle 0 ''1-2'' False, Delay 0 500,
               Toggle 0 ''2'' True, Delay 0 500, Toggle 0 ''2'' False, Delay 0 500,
               ResetClicked 0, Release 0,
               Acquire 2, ResetReplied 2, ResetClicked 2, Release 2]\<rparr>"
  by (simp add: after_reply_def reply_during_sweep_def animation_defs numeral_eq_Suc)


lemma after_second_click_state:
  "after_second_click =
     \<lparr>animationLock = False,
      nodes = [\<lparr>element_id = ''1'', active = Some False\<rparr>, \<lparr>element_id = ''2'', active = Some False\<rparr>],
      edges = [\<lparr>element_id = ''1-2'', active = Some False\<rparr>],
      buttonClicked = False, aiReplied = True,
      runs = [\<lparr>seen_aiReplied = False, point = Returned\<rparr>,
              \<lparr>seen_aiReplied = False, point = Polling\<rparr>,
              \<lparr>seen_aiReplied = True, point = Polling\<rparr>],
      trace = [Acquire 0, Toggle 0 ''1'' True, Delay 0 500, Delay 1 100, Delay 2 100,
               Toggle 0 ''1'' False, Delay 0 500,
               Toggle 0 ''1-2'' True, Delay 0 500, Toggle 0 ''1-2'' False, Delay 0 500,
               Toggle 0 ''2'' True, Delay 0 500, Toggle 0 ''2'' False, Delay 0 500,
               ResetClicked 0, Release 0]\<rparr>"
  by (simp add: after_second_click_def second_click_def animation_defs numeral_eq_Suc)

lemma switch_twice: "switch is b (switch is a obj) = switch is b obj"
  by (simp add: switch_def)

lemma animate_ids_elements:
  "nodes (animate_ids r is a s) = map (switch is a) (nodes s)"
  "edges (animate_ids r is a s) = map (switch is a) (edges s)"
  by (simp_all add: animate_ids_def emit_def toggles_switch)

lemma pulsed_elements:
  "nodes (pulsed r step s) = map (switch (ids step) HIGHLIGHT_OFF) (nodes s)"
  "edges (pulsed r step s) = map (switch (ids step) HIGHLIGHT_OFF) (edges s)"
  by (simp_all add: pulsed_def animate_ids_elements switch_twice comp_def)

lemma pulses_elements:
  "nodes (fold (pulsed r) steps s) = dimmed steps (nodes s) \<and>
   edges (fold (pulsed r) steps s) = dimmed steps (edges s)"
  by (induction steps arbitrary: s) (simp_all add: dimmed_def pulsed_elements)

lemma frame_elements:
  "nodes (suspend r p s) = nodes s" "edges (suspend r p s) = edges s"
  "nodes (emit ev s) = nodes s" "edges (emit ev s) = edges s"
  by (simp_all add: suspend_def emit_def)

lemma solo_sweep_elements:
  assumes "r < length (runs s)" and "\<not> animationLock s"
  shows "(let steps = animationSequence config;
              s0 = waitForAnimationAndRun config r False s;
              s_end = happenings config (replicate (2 * length steps) (Wake r)) s0
          in nodes s_end = dimmed steps (nodes s) \<and> edges s_end = dimmed steps (edges s) \<and>
             (\<forall>k < length steps.
                (let s_on = happenings config (replicate (2 * k) (Wake r)) s0;
                     s_off = happenings config (replicate (2 * k + 1) (Wake r)) s0
                 in nodes s_on =
                      map (switch (ids (steps ! k)) True) (dimmed (take k steps) (nodes s)) \<and>
                    edges s_on =
                      map (switch (ids (steps ! k)) True) (dimmed (take k steps) (edges s)) \<and>
                    nodes s_off = dimmed (take (Suc k) steps) (nodes s) \<and>
                    edges s_off = dimmed (take (Suc k) steps) (edges s))))"
proof -
  let ?steps = "animationSequence config"
  let ?a = "emit (Acquire r) (s\<lparr>animationLock := True\<rparr>)"
  let ?s0 = "waitForAnimationAndRun config r False s"
  have s0: "?s0 = sweep r ?steps ?a"
    using assms(2) by (rule wait_sweeps)
  have r: "r < length (runs ?a)"
    using assms(1) by (simp add: acquired_frame)
  have a: "nodes ?a = nodes s" "edges ?a = edges s"
    by (simp_all add: emit_def)
  have fin: "happenings config (replicate (2 * length ?steps) (Wake r)) ?s0 =
      finish r (fold (pulsed r) ?steps ?a)"
    unfolding s0 using sweep_pulses [OF r, of "length ?steps" ?steps config] by simp
  have 1: "nodes (happenings config (replicate (2 * length ?steps) (Wake r)) ?s0) =
        dimmed ?steps (nodes s) \<and>
      edges (happenings config (replicate (2 * length ?steps) (Wake r)) ?s0) =
        dimmed ?steps (edges s)"
    unfolding fin by (simp add: finish_simps pulses_elements a)
  have 2: "nodes (happenings config (replicate (2 * k) (Wake r)) ?s0) =
        map (switch (ids (?steps ! k)) True) (dimmed (take k ?steps) (nodes s)) \<and>
      edges (happenings config (replicate (2 * k) (Wake r)) ?s0) =
        map (switch (ids (?steps ! k)) True) (dimmed (take k ?steps) (edges s))"
    if "k < length ?steps" for k
    unfolding s0 sweep_pulses_on [OF r that]
    by (simp add: frame_elements animate_ids_elements pulses_elements a HIGHLIGHT_ON_def)
  have 3: "nodes (happenings config (replicate (2 * k + 1) (Wake r)) ?s0) =
        dimmed (take (Suc k) ?steps) (nodes s) \<and>
      edges (happenings config (replicate (2 * k + 1) (Wake r)) ?s0) =
        dimmed (take (Suc k) ?steps) (edges s)"
    if "k < length ?steps" for k
    unfolding s0 sweep_pulses_off [OF r that]
    by (simp add: frame_elements pulses_elements a)
  from 1 2 3 show ?thesis
    by (simp add: Let_def)
qed

subsection \<open>Every run stays on its script, whatever happens in between\<close>

lemma moves_scripted:
  assumes "scripted config s" and "q < length (runs s)" and "moves config q s s'"
  shows "scripted config s'"
proof -
  from assms(3) obtain evs p where t: "trace s' = trace s @ evs"
    and a: "\<forall>ev \<in> set evs. actor ev = q"
    and r: "runs s' = (runs s)[q := (runs s ! q)\<lparr>point := p\<rparr>]"
    and f: "\<forall>own. follows config q (runs s ! q) own \<longrightarrow>
           follows config q ((runs s ! q)\<lparr>point := p\<rparr>) (own @ evs)"
    unfolding moves_def by blast
  from a have own: "filter (by_run q) evs = evs"
    by (simp add: by_run_def)
  from a have other: "filter (by_run r) evs = []" if "r \<noteq> q" for r
    using that by (auto simp: by_run_def filter_empty_conv)
  have "follows config r (runs s' ! r) (filter (by_run r) (trace s'))" if "r < length (runs s')" for r
  proof (cases "r = q")
    case True
    from assms(1,2) have "follows config q (runs s ! q) (filter (by_run q) (trace s))"
      by (simp add: scripted_def)
    with f have "follows config q ((runs s ! q)\<lparr>point := p\<rparr>) (filter (by_run q) (trace s) @ evs)"
      by blast
    with True assms(2) show ?thesis by (simp add: t r own)
  next
    case False
    from that have "r < length (runs s)" by (simp add: r)
    with assms(1) have "follows config r (runs s ! r) (filter (by_run r) (trace s))"
      by (simp add: scripted_def)
    with False show ?thesis by (simp add: t r other)
  qed
  moreover have "filter (by_run r) (trace s') = []" if "length (runs s') \<le> r" for r
  proof -
    from that assms(2) have "r \<noteq> q" "length (runs s) \<le> r" by (simp_all add: r)
    with assms(1) show ?thesis by (simp add: t other scripted_def)
  qed
  ultimately show ?thesis by (simp add: scripted_def)
qed

lemma finish_runs: "runs (finish q s) = (runs s)[q := (runs s ! q)\<lparr>point := Returned\<rparr>]"
  by (simp add: finish_def suspend_def emit_def)

lemma suspend_runs: "runs (suspend q p s) = (runs s)[q := (runs s ! q)\<lparr>point := p\<rparr>]"
  by (simp add: suspend_def)

lemma polls_snoc: "replicate n x @ [x] = replicate (Suc n) x"
  by (simp add: replicate_append_same)

lemma wait_moves:
  assumes "point (runs s ! q) = Polling"
  shows "moves config q s (waitForAnimationAndRun config q (seen_aiReplied (runs s ! q)) s)"
proof (cases "animationLock s")
  case True
  have "follows config q ((runs s ! q)\<lparr>point := Polling\<rparr>) (own @ [Delay q 100])"
    if "follows config q (runs s ! q) own" for own
  proof -
    from that assms obtain n where "own = replicate n (Delay q 100)"
      by (auto simp: follows_def)
    then have "own @ [Delay q 100] = replicate (Suc n) (Delay q 100)"
      by (simp only: polls_snoc)
    then show ?thesis unfolding follows_def by (auto intro: exI [of _ "Suc n"])
  qed
  with True show ?thesis
    unfolding moves_def
    by (intro exI [of _ "[Delay q 100]"] exI [of _ Polling])
       (simp add: waitForAnimationAndRun_def suspend_simps suspend_runs emit_def)
next
  case False
  let ?a = "emit (Acquire q) (s\<lparr>animationLock := True\<rparr>)"
  show ?thesis
  proof (cases "seen_aiReplied (runs s ! q)")
    case True
    have "follows config q ((runs s ! q)\<lparr>point := Returned\<rparr>) (own @ script config q True)"
      if "follows config q (runs s ! q) own" for own
      using that assms True by (auto simp: follows_def)
    with False True show ?thesis
      unfolding moves_def
      by (intro exI [of _ "script config q True"] exI [of _ Returned])
         (simp add: waitForAnimationAndRun_def animateGraph_def finish_simps finish_runs emit_def
          script_def)
  next
    case unseen: False
    show ?thesis
    proof (cases "animationSequence config")
      case Nil
      have "follows config q ((runs s ! q)\<lparr>point := Returned\<rparr>) (own @ script config q False)"
        if "follows config q (runs s ! q) own" for own
        using that assms unseen by (auto simp: follows_def)
      with False unseen Nil show ?thesis
        unfolding moves_def
        by (intro exI [of _ "script config q False"] exI [of _ Returned])
           (simp add: waitForAnimationAndRun_def animateGraph_def finish_simps finish_runs emit_def
            script_def)
    next
      case (Cons step rest)
      let ?evs = "[Acquire q] @ map (\<lambda>i. Toggle q i True) (ids step) @ [Delay q 500]"
      have "follows config q ((runs s ! q)\<lparr>point := Highlighted step rest\<rparr>) (own @ ?evs)"
        if "follows config q (runs s ! q) own" for own
      proof -
        from that assms obtain n where "own = replicate n (Delay q 100)"
          by (auto simp: follows_def)
        with unseen Cons show ?thesis
          unfolding follows_def by (auto intro!: exI [of _ n] exI [of _ "[]"])
      qed
      with False unseen Cons show ?thesis
        unfolding moves_def
        by (intro exI [of _ ?evs] exI [of _ "Highlighted step rest"])
           (simp add: waitForAnimationAndRun_def animateGraph_def suspend_simps suspend_runs
            animate_ids_frame emit_def HIGHLIGHT_ON_def DELAY_DURATION_def)
    qed
  qed
qed


lemma dim_moves:
  assumes "point (runs s ! q) = Highlighted step rest"
  shows "moves config q s (suspend q (Dimmed rest) (animate_ids q (ids step) HIGHLIGHT_OFF s))"
proof -
  let ?evs = "map (\<lambda>i. Toggle q i False) (ids step) @ [Delay q 500]"
  have "follows config q ((runs s ! q)\<lparr>point := Dimmed rest\<rparr>) (own @ ?evs)"
    if "follows config q (runs s ! q) own" for own
  proof -
    from that assms obtain n before where u: "\<not> seen_aiReplied (runs s ! q)"
      and b: "animationSequence config = before @ step # rest"
      and o: "own = replicate n (Delay q 100) @ [Acquire q] @ concat (map (pulse q) before) @
               map (\<lambda>i. Toggle q i True) (ids step) @ [Delay q 500]"
      by (auto simp: follows_def)
    from b have "animationSequence config = (before @ [step]) @ rest" by simp
    moreover from o have "own @ ?evs =
        replicate n (Delay q 100) @ [Acquire q] @ concat (map (pulse q) (before @ [step]))"
      by (simp add: pulse_def)
    ultimately show ?thesis
      unfolding follows_def using u by (auto intro!: exI [of _ n] exI [of _ "before @ [step]"])
  qed
  then show ?thesis
    unfolding moves_def
    by (intro exI [of _ ?evs] exI [of _ "Dimmed rest"])
       (simp add: suspend_simps suspend_runs animate_ids_frame HIGHLIGHT_OFF_def DELAY_DURATION_def)
qed

lemma sweep_moves:
  assumes "point (runs s ! q) = Dimmed rest"
  shows "moves config q s (sweep q rest s)"
proof (cases rest)
  case Nil
  have "follows config q ((runs s ! q)\<lparr>point := Returned\<rparr>) (own @ [ResetClicked q, Release q])"
    if "follows config q (runs s ! q) own" for own
    using that assms Nil by (auto simp: follows_def script_def)
  with Nil show ?thesis
    unfolding moves_def
    by (intro exI [of _ "[ResetClicked q, Release q]"] exI [of _ Returned])
       (simp add: finish_simps finish_runs)
next
  case (Cons step rest')
  let ?evs = "map (\<lambda>i. Toggle q i True) (ids step) @ [Delay q 500]"
  have "follows config q ((runs s ! q)\<lparr>point := Highlighted step rest'\<rparr>) (own @ ?evs)"
    if "follows config q (runs s ! q) own" for own
    using that assms Cons by (auto simp: follows_def)
  with Cons show ?thesis
    unfolding moves_def
    by (intro exI [of _ ?evs] exI [of _ "Highlighted step rest'"])
       (simp add: suspend_simps suspend_runs animate_ids_frame HIGHLIGHT_ON_def DELAY_DURATION_def)
qed

lemma resume_scripted:
  assumes "scripted config s"
  shows "scripted config (resume config q s)"
proof (cases "q < length (runs s)")
  case False
  with assms show ?thesis by (simp add: resume_def)
next
  case True
  show ?thesis
  proof (cases "point (runs s ! q)")
    case Polling
    from moves_scripted [OF assms True wait_moves [OF Polling]] True Polling show ?thesis
      by (simp add: resume_def)
  next
    case (Highlighted step rest)
    from moves_scripted [OF assms True dim_moves [OF Highlighted]] True Highlighted show ?thesis
      by (simp add: resume_def)
  next
    case (Dimmed rest)
    from moves_scripted [OF assms True sweep_moves [OF Dimmed]] True Dimmed show ?thesis
      by (simp add: resume_def)
  next
    case Returned
    with assms True show ?thesis by (simp add: resume_def)
  qed
qed

lemma run_effect_scripted:
  assumes "scripted config s"
  shows "scripted config (run_effect config s)"
proof (cases "\<not> buttonClicked s \<and> \<not> aiReplied s")
  case True
  with assms show ?thesis by (simp add: run_effect_def)
next
  case False
  let ?q = "length (runs s)"
  let ?s = "s\<lparr>runs := runs s @ [\<lparr>seen_aiReplied = aiReplied s, point = Polling\<rparr>]\<rparr>"
  have new: "follows config ?q \<lparr>seen_aiReplied = aiReplied s, point = Polling\<rparr> []"
    unfolding follows_def by (auto intro: exI [of _ 0])
  from assms have "filter (by_run ?q) (trace s) = []"
    by (simp add: scripted_def)
  with assms new have 1: "scripted config ?s"
    by (auto simp: scripted_def nth_append less_Suc_eq)
  have 2: "?q < length (runs ?s)" by simp
  have 3: "point (runs ?s ! ?q) = Polling" by simp
  have "seen_aiReplied (runs ?s ! ?q) = aiReplied s" by simp
  with moves_scripted [OF 1 2 wait_moves [OF 3]]
  have "scripted config (waitForAnimationAndRun config ?q (aiReplied s) ?s)"
    by simp
  with False show ?thesis by (auto simp: run_effect_def)
qed

lemma happen_scripted:
  assumes "scripted config s"
  shows "scripted config (happen config x s)"
proof (cases x)
  case (Clicked b)
  with assms show ?thesis by (simp add: scripted_def)
next
  case (Replied b)
  with assms show ?thesis by (simp add: scripted_def)
next
  case Reconfigure
  with assms show ?thesis by (simp add: scripted_def reconfigure_def)
next
  case Effect
  with run_effect_scripted [OF assms] show ?thesis by simp
next
  case (Wake r)
  with resume_scripted [OF assms] show ?thesis by simp
qed

lemma happenings_scripted:
  assumes "scripted config s"
  shows "scripted config (happenings config xs s)"
  using assms
proof (induction xs arbitrary: s)
  case Nil
  then show ?case by (simp add: happenings_def)
next
  case (Cons x xs)
  from Cons.IH [OF happen_scripted [OF Cons.prems]] show ?case
    by (simp add: happenings_def)
qed

lemma mounted_scripted: "scripted config (mounted config)"
  by (simp add: scripted_def mounted_def)

subsection \<open>Mutual exclusion, the sweep and the short-circuit, under every interleaving\<close>


lemma follows_sweep_prefix:
  assumes "follows config q t own" and "\<not> seen_aiReplied t"
  shows "\<exists>n rest. replicate n (Delay q 100) @ [Acquire q] @
      concat (map (pulse q) (animationSequence config)) @ [ResetClicked q, Release q] = own @ rest \<and>
      (point t = Returned \<longrightarrow> rest = [])"
proof (cases "point t")
  case Polling
  with assms show ?thesis by (auto simp: follows_def)
next
  case (Highlighted step rest)
  with assms obtain n before where "animationSequence config = before @ step # rest"
    "own = replicate n (Delay q 100) @ [Acquire q] @ concat (map (pulse q) before) @
               map (\<lambda>i. Toggle q i True) (ids step) @ [Delay q 500]"
    by (auto simp: follows_def)
  with Highlighted show ?thesis
    by (intro exI [of _ n]) (simp add: pulse_def)
next
  case (Dimmed rest)
  with assms obtain n before where "animationSequence config = before @ rest"
    "own = replicate n (Delay q 100) @ [Acquire q] @ concat (map (pulse q) before)"
    by (auto simp: follows_def)
  with Dimmed show ?thesis
    by (intro exI [of _ n]) simp
next
  case Returned
  with assms obtain n where "own = replicate n (Delay q 100) @ script config q False"
    by (auto simp: follows_def)
  with Returned show ?thesis
    by (intro exI [of _ n] exI [of _ "[]"]) (simp add: script_def)
qed

lemma follows_reply:
  assumes "follows config q t own" and "seen_aiReplied t"
  shows "(\<forall>i a. Toggle q i a \<notin> set own) \<and>
    (point t = Returned \<longrightarrow>
       (\<exists>n. own = replicate n (Delay q 100) @
          [Acquire q, ResetReplied q, ResetClicked q, Release q]))"
proof (cases "point t")
  case Polling
  with assms show ?thesis by (auto simp: follows_def)
next
  case (Highlighted step rest)
  with assms show ?thesis by (auto simp: follows_def)
next
  case (Dimmed rest)
  with assms show ?thesis by (auto simp: follows_def)
next
  case Returned
  with assms show ?thesis by (auto simp: follows_def script_def)
qed

lemma reachable_follows:
  assumes "q < length (runs (happenings config hs (mounted config)))"
  shows "follows config q (runs (happenings config hs (mounted config)) ! q)
    (filter (by_run q) (trace (happenings config hs (mounted config))))"
  using happenings_scripted [OF mounted_scripted, of config hs] assms
  by (simp add: scripted_def)



text \<open>
  C4. A run whose \<open>aiReplied\<close>, as the render that started it had it, is false finds
  the lock free and is then woken again and again. It takes the lock and goes through
  the sequence in order: after \<open>2k\<close> wakes it is inside the highlight of step \<open>k\<close>,
  the nodes and edges are those left by the steps before with \<open>active\<close> set to true in
  every one that has an id of step \<open>k\<close> (no other changed, none dropped), and it
  awaits 500 ms; one wake later \<open>active\<close> is false in the same ones and it awaits
  500 ms again; only then comes step \<open>k + 1\<close>. Its whole trace is the lock, one pulse
  per step in the order of the sequence, the flag reset and the release. And whatever
  else happens in between, after mounting, the events of such a run are its polling
  delays followed by a beginning of that same script, all of it once the run has
  returned.
\<close>

theorem sweep_pulses_in_order:
  assumes "r < length (runs s)" and "\<not> animationLock s"
  shows "(let steps = animationSequence config;
              s0 = waitForAnimationAndRun config r False s;
              s_end = happenings config (replicate (2 * length steps) (Wake r)) s0
          in trace s_end =
               trace s @ [Acquire r] @ concat (map (pulse r) steps) @ [ResetClicked r, Release r] \<and>
             point (runs s_end ! r) = Returned \<and>
             (\<forall>k < length steps.
                (let s_on = happenings config (replicate (2 * k) (Wake r)) s0;
                     s_off = happenings config (replicate (2 * k + 1) (Wake r)) s0
                 in point (runs s_on ! r) = Highlighted (steps ! k) (drop (Suc k) steps) \<and>
                    shown (ids (steps ! k)) True s_on \<and>
                    trace s_on = trace s @ [Acquire r] @ concat (map (pulse r) (take k steps)) @
                      map (\<lambda>i. Toggle r i True) (ids (steps ! k)) @ [Delay r 500] \<and>
                    point (runs s_off ! r) = Dimmed (drop (Suc k) steps) \<and>
                    shown (ids (steps ! k)) False s_off \<and>
                    trace s_off =
                      trace s @ [Acquire r] @ concat (map (pulse r) (take (Suc k) steps))))) \<and>
         (let steps = animationSequence config;
              s0 = waitForAnimationAndRun config r False s;
              s_end = happenings config (replicate (2 * length steps) (Wake r)) s0
          in nodes s_end = dimmed steps (nodes s) \<and> edges s_end = dimmed steps (edges s) \<and>
             (\<forall>k < length steps.
                (let s_on = happenings config (replicate (2 * k) (Wake r)) s0;
                     s_off = happenings config (replicate (2 * k + 1) (Wake r)) s0
                 in nodes s_on =
                      map (switch (ids (steps ! k)) True) (dimmed (take k steps) (nodes s)) \<and>
                    edges s_on =
                      map (switch (ids (steps ! k)) True) (dimmed (take k steps) (edges s)) \<and>
                    nodes s_off = dimmed (take (Suc k) steps) (nodes s) \<and>
                    edges s_off = dimmed (take (Suc k) steps) (edges s)))) \<and>
         (let t = happenings config hs (mounted config)
          in q < length (runs t) \<and> \<not> seen_aiReplied (runs t ! q) \<longrightarrow>
             (\<exists>n rest. replicate n (Delay q 100) @ [Acquire q] @
                  concat (map (pulse q) (animationSequence config)) @ [ResetClicked q, Release q] =
                  filter (by_run q) (trace t) @ rest \<and>
                (returned q t \<longrightarrow> rest = [])))"
proof -
  let ?t = "happenings config hs (mounted config)"
  have "\<exists>n rest. replicate n (Delay q 100) @ [Acquire q] @
        concat (map (pulse q) (animationSequence config)) @ [ResetClicked q, Release q] =
        filter (by_run q) (trace ?t) @ rest \<and> (returned q ?t \<longrightarrow> rest = [])"
    if "q < length (runs ?t)" "\<not> seen_aiReplied (runs ?t ! q)"
    using follows_sweep_prefix [OF reachable_follows [OF that(1)] that(2)] that(1)
    by (simp add: returned_def)
  then have "(let t = happenings config hs (mounted config)
          in q < length (runs t) \<and> \<not> seen_aiReplied (runs t ! q) \<longrightarrow>
             (\<exists>n rest. replicate n (Delay q 100) @ [Acquire q] @
                  concat (map (pulse q) (animationSequence config)) @ [ResetClicked q, Release q] =
                  filter (by_run q) (trace t) @ rest \<and>
                (returned q t \<longrightarrow> rest = [])))"
    by (simp add: Let_def)
  with solo_sweep [OF assms, of config] solo_sweep_elements [OF assms, of config]
  show ?thesis by (intro conjI)
qed

theorem sweep_pulses_in_order_witness:
  "0 < length (runs one_waiting) \<and> \<not> animationLock one_waiting \<and>
   trace (happenings graphConfig (replicate (2 * length (animationSequence graphConfig)) (Wake 0))
      (waitForAnimationAndRun graphConfig 0 False one_waiting)) =
     [Acquire 0,
      Toggle 0 ''1'' True, Delay 0 500, Toggle 0 ''1'' False, Delay 0 500,
      Toggle 0 ''1-2'' True, Delay 0 500, Toggle 0 ''1-2'' False, Delay 0 500,
      Toggle 0 ''2'' True, Delay 0 500, Toggle 0 ''2'' False, Delay 0 500,
      ResetClicked 0, Release 0] \<and>
   shown [''1-2''] True (happenings graphConfig (replicate (2 * 1) (Wake 0))
      (waitForAnimationAndRun graphConfig 0 False one_waiting)) \<and>
   nodes (happenings graphConfig (replicate (2 * 1) (Wake 0))
      (waitForAnimationAndRun graphConfig 0 False one_waiting)) =
     [\<lparr>element_id = ''1'', active = Some False\<rparr>, \<lparr>element_id = ''2'', active = None\<rparr>] \<and>
   edges (happenings graphConfig (replicate (2 * 1) (Wake 0))
      (waitForAnimationAndRun graphConfig 0 False one_waiting)) =
     [\<lparr>element_id = ''1-2'', active = Some True\<rparr>] \<and>
   edges (happenings graphConfig (replicate (2 * 1 + 1) (Wake 0))
      (waitForAnimationAndRun graphConfig 0 False one_waiting)) =
     [\<lparr>element_id = ''1-2'', active = Some False\<rparr>] \<and>
   0 < length (runs (happenings graphConfig click_then_reply (mounted graphConfig))) \<and>
   \<not> seen_aiReplied (runs (happenings graphConfig click_then_reply (mounted graphConfig)) ! 0) \<and>
   (\<exists>n rest. replicate n (Delay 0 100) @
      [Acquire 0,
       Toggle 0 ''1'' True, Delay 0 500, Toggle 0 ''1'' False, Delay 0 500,
       Toggle 0 ''1-2'' True, Delay 0 500, Toggle 0 ''1-2'' False, Delay 0 500,
       Toggle 0 ''2'' True, Delay 0 500, Toggle 0 ''2'' False, Delay 0 500,
       ResetClicked 0, Release 0] =
      [Acquire 0, Toggle 0 ''1'' True, Delay 0 500, Toggle 0 ''1'' False, Delay 0 500] @ rest)"
proof -
  have h1: "0 < length (runs one_waiting)" and h2: "\<not> animationLock one_waiting"
    by (simp_all add: one_waiting_def mounted_def)
  have t: "trace one_waiting = []"
    "nodes one_waiting =
      [\<lparr>element_id = ''1'', active = None\<rparr>, \<lparr>element_id = ''2'', active = None\<rparr>]"
    "edges one_waiting = [\<lparr>element_id = ''1-2'', active = None\<rparr>]"
    by (simp_all add: one_waiting_def mounted_def graphConfig_def)
  have steps: "animationSequence graphConfig = [\<lparr>ids = [''1'']\<rparr>, \<lparr>ids = [''1-2'']\<rparr>, \<lparr>ids = [''2'']\<rparr>]"
    by (simp add: graphConfig_def)
  note inst = sweep_pulses_in_order [OF h1 h2, of graphConfig click_then_reply 0, unfolded Let_def]
  from inst have "trace (happenings graphConfig
        (replicate (2 * length (animationSequence graphConfig)) (Wake 0))
        (waitForAnimationAndRun graphConfig 0 False one_waiting)) =
      trace one_waiting @ [Acquire 0] @ concat (map (pulse 0) (animationSequence graphConfig)) @
        [ResetClicked 0, Release 0]"
    by blast
  moreover from inst have "1 < length (animationSequence graphConfig) \<longrightarrow>
      shown (ids (animationSequence graphConfig ! 1)) True
        (happenings graphConfig (replicate (2 * 1) (Wake 0))
          (waitForAnimationAndRun graphConfig 0 False one_waiting))"
    by blast
  moreover from inst have "1 < length (animationSequence graphConfig) \<longrightarrow>
      nodes (happenings graphConfig (replicate (2 * 1) (Wake 0))
          (waitForAnimationAndRun graphConfig 0 False one_waiting)) =
        map (switch (ids (animationSequence graphConfig ! 1)) True)
          (dimmed (take 1 (animationSequence graphConfig)) (nodes one_waiting))"
    by blast
  moreover from inst have "1 < length (animationSequence graphConfig) \<longrightarrow>
      edges (happenings graphConfig (replicate (2 * 1) (Wake 0))
          (waitForAnimationAndRun graphConfig 0 False one_waiting)) =
        map (switch (ids (animationSequence graphConfig ! 1)) True)
          (dimmed (take 1 (animationSequence graphConfig)) (edges one_waiting))"
    by blast
  moreover from inst have "1 < length (animationSequence graphConfig) \<longrightarrow>
      edges (happenings graphConfig (replicate (2 * 1 + 1) (Wake 0))
          (waitForAnimationAndRun graphConfig 0 False one_waiting)) =
        dimmed (take (Suc 1) (animationSequence graphConfig)) (edges one_waiting)"
    by blast
  moreover from inst have
    "0 < length (runs (happenings graphConfig click_then_reply (mounted graphConfig))) \<and>
     \<not> seen_aiReplied (runs (happenings graphConfig click_then_reply (mounted graphConfig)) ! 0) \<longrightarrow>
     (\<exists>n rest. replicate n (Delay 0 100) @ [Acquire 0] @
        concat (map (pulse 0) (animationSequence graphConfig)) @ [ResetClicked 0, Release 0] =
        filter (by_run 0) (trace (happenings graphConfig click_then_reply (mounted graphConfig))) @ rest)"
    by blast
  ultimately show ?thesis
    using h1 h2 unfolding click_then_reply_run
    by (simp add: t steps pulse_def by_run_def dimmed_def switch_def HIGHLIGHT_OFF_def)
qed

text \<open>
  Run 1 takes the lock while \<open>aiReplied\<close> is false, and iterates nothing: the
  render that started it had \<open>aiReplied\<close> true.
\<close>

theorem unreplied_at_acquisition_skips:
  "\<not> aiReplied after_reply \<and> \<not> animationLock after_reply \<and>
   point (runs after_reply ! 1) = Polling \<and>
   trace (happen graphConfig (Wake 1) after_reply) =
     trace after_reply @ [Acquire 1, ResetReplied 1, ResetClicked 1, Release 1] \<and>
   nodes (happen graphConfig (Wake 1) after_reply) = nodes after_reply \<and>
   edges (happen graphConfig (Wake 1) after_reply) = edges after_reply"
  unfolding after_reply_state by (simp add: animation_defs)

text \<open>
  C5. A run whose \<open>aiReplied\<close>, as the render that started it had it, is true
  finds the lock free: no toggle is made, nodes and edges stay as they are,
  \<open>aiReplied\<close> is reset, and the run returns with \<open>buttonClicked\<close> reset and the
  lock released. Whenever any happening makes any run return, in either branch,
  \<open>buttonClicked\<close> is false and the lock is free afterwards. And whatever happens
  after mounting, such a run never toggles anything: once it has returned, its events
  are its polling delays, the lock, the two resets and the release.
\<close>

theorem reply_short_circuit:
  assumes "r < length (runs s)" and "\<not> animationLock s"
  shows "(let s' = waitForAnimationAndRun config r True s
          in nodes s' = nodes s \<and> edges s' = edges s \<and>
             trace s' = trace s @ [Acquire r, ResetReplied r, ResetClicked r, Release r] \<and>
             \<not> aiReplied s' \<and> returned r s' \<and> released s') \<and>
         (\<forall>x p u. \<not> returned p u \<and> returned p (happen config x u) \<longrightarrow>
            released (happen config x u)) \<and>
         (let t = happenings config hs (mounted config)
          in q < length (runs t) \<and> seen_aiReplied (runs t ! q) \<longrightarrow>
             (\<forall>i a. Toggle q i a \<notin> set (trace t)) \<and>
             (returned q t \<longrightarrow>
                (\<exists>n. filter (by_run q) (trace t) = replicate n (Delay q 100) @
                   [Acquire q, ResetReplied q, ResetClicked q, Release q])))"
proof -
  let ?t = "happenings config hs (mounted config)"
  have "r < length (runs
      (emit (ResetReplied r) (emit (Acquire r) (s\<lparr>animationLock := True\<rparr>)\<lparr>aiReplied := False\<rparr>)))"
    using assms(1) by (simp add: emit_def)
  then have 1: "(let s' = waitForAnimationAndRun config r True s
          in nodes s' = nodes s \<and> edges s' = edges s \<and>
             trace s' = trace s @ [Acquire r, ResetReplied r, ResetClicked r, Release r] \<and>
             \<not> aiReplied s' \<and> returned r s' \<and> released s')"
    unfolding short_circuit [OF assms]
    by (simp add: Let_def finish_simps returned_def released_def emit_def)
  have 2: "(\<forall>i a. Toggle q i a \<notin> set (trace ?t)) \<and>
      (returned q ?t \<longrightarrow>
         (\<exists>n. filter (by_run q) (trace ?t) = replicate n (Delay q 100) @
            [Acquire q, ResetReplied q, ResetClicked q, Release q]))"
    if "q < length (runs ?t)" "seen_aiReplied (runs ?t ! q)"
    using follows_reply [OF reachable_follows [OF that(1)] that(2)] that(1)
    by (auto simp: returned_def by_run_def)
  from 1 2 happen_returns show ?thesis
    by (simp add: Let_def) blast
qed

theorem reply_short_circuit_witness:
  "0 < length (runs reply_waiting) \<and> \<not> animationLock reply_waiting \<and>
   waitForAnimationAndRun graphConfig 0 True reply_waiting =
     reply_waiting
       \<lparr>buttonClicked := False, aiReplied := False,
        runs := [\<lparr>seen_aiReplied = True, point = Returned\<rparr>],
        trace := [Acquire 0, ResetReplied 0, ResetClicked 0, Release 0]\<rparr> \<and>
   \<not> returned 0 reply_waiting \<and> returned 0 (happen graphConfig (Wake 0) reply_waiting) \<and>
   released (happen graphConfig (Wake 0) reply_waiting) \<and>
   1 < length (runs (happenings graphConfig click_then_reply (mounted graphConfig))) \<and>
   seen_aiReplied (runs (happenings graphConfig click_then_reply (mounted graphConfig)) ! 1) \<and>
   (\<forall>i a. Toggle 1 i a \<notin>
      set (trace (happenings graphConfig click_then_reply (mounted graphConfig))))"
proof -
  have h1: "0 < length (runs reply_waiting)" and h2: "\<not> animationLock reply_waiting"
    by (simp_all add: reply_waiting_def mounted_def)
  have run: "waitForAnimationAndRun graphConfig 0 True reply_waiting =
     reply_waiting
       \<lparr>buttonClicked := False, aiReplied := False,
        runs := [\<lparr>seen_aiReplied = True, point = Returned\<rparr>],
        trace := [Acquire 0, ResetReplied 0, ResetClicked 0, Release 0]\<rparr>"
    by (simp add: reply_waiting_def mounted_def waitForAnimationAndRun_def animateGraph_def
        finish_def suspend_def emit_def)
  have wake: "happen graphConfig (Wake 0) reply_waiting =
      waitForAnimationAndRun graphConfig 0 True reply_waiting"
    by (simp add: resume_def reply_waiting_def mounted_def)
  have h3: "\<not> returned 0 reply_waiting"
    by (simp add: returned_def reply_waiting_def mounted_def)
  have h4: "returned 0 (happen graphConfig (Wake 0) reply_waiting)"
    unfolding wake run by (simp add: returned_def)
  have h5: "1 < length (runs (happenings graphConfig click_then_reply (mounted graphConfig)))"
    and h6: "seen_aiReplied (runs (happenings graphConfig click_then_reply (mounted graphConfig)) ! 1)"
    unfolding click_then_reply_run by simp_all
  note inst = reply_short_circuit [OF h1 h2, of graphConfig click_then_reply 1, unfolded Let_def]
  from inst h3 h4 have "released (happen graphConfig (Wake 0) reply_waiting)" by blast
  moreover from inst h5 h6 have "\<forall>i a. Toggle 1 i a \<notin>
      set (trace (happenings graphConfig click_then_reply (mounted graphConfig)))"
    by blast
  ultimately show ?thesis
    using h1 h2 h3 h4 h5 h6 run by blast
qed

text \<open>
  Run 1 takes the lock while \<open>aiReplied\<close> is true, highlights the first step and
  leaves \<open>aiReplied\<close> as it is: the render that started it had \<open>aiReplied\<close> false.
\<close>

theorem replied_at_acquisition_sweeps:
  "aiReplied after_second_click \<and> \<not> animationLock after_second_click \<and>
   point (runs after_second_click ! 1) = Polling \<and>
   trace (happen graphConfig (Wake 1) after_second_click) =
     trace after_second_click @ [Acquire 1, Toggle 1 ''1'' True, Delay 1 500] \<and>
   nodes (happen graphConfig (Wake 1) after_second_click) =
     [\<lparr>element_id = ''1'', active = Some True\<rparr>, \<lparr>element_id = ''2'', active = Some False\<rparr>] \<and>
   aiReplied (happen graphConfig (Wake 1) after_second_click)"
  unfolding after_second_click_state by (simp add: animation_defs)

end
